theory Spec2Isabelle
  imports Complex_Main "HOL-Library.AList"
begin

section \<open>Values exchanged with the agents\<close>

text \<open>
  The fields of a reply come out of \<^verbatim>\<open>JSON.parse\<close>, so they are JavaScript values.
  Numbers are modelled as exact rationals (the rounding of IEEE doubles is not modelled);
  field values that are themselves arrays or objects are not modelled.
\<close>

datatype jsval = JUndefined | JNull | JBool bool | JNum rat | JStr string

text \<open>JavaScript truthiness, as used by \<^verbatim>\<open>if (response.deal)\<close>.\<close>

fun truthy :: "jsval \<Rightarrow> bool" where
  "truthy JUndefined = False"
| "truthy JNull = False"
| "truthy (JBool b) = b"
| "truthy (JNum n) = (n \<noteq> 0)"
| "truthy (JStr s) = (s \<noteq> [])"

text \<open>
  The \<^verbatim>\<open>offer\<close> field: the prompt asks for \<^verbatim>\<open>number | null\<close>; a reply whose JSON has no
  \<^verbatim>\<open>offer\<close> key reads as \<^verbatim>\<open>undefined\<close>. An offer that is a string, a boolean, an array
  or an object is outside this model. On this type \<^verbatim>\<open>===\<close> is equality and
  \<^verbatim>\<open>x !== null\<close> is \<open>x \<noteq> ONull\<close>.
\<close>

datatype offer = OUndefined | ONull | ONum rat

text \<open>Truthiness of a price, as used by \<^verbatim>\<open>dealReached && dealPrice\<close>.\<close>

fun offer_truthy :: "offer \<Rightarrow> bool" where
  "offer_truthy (ONum n) = (n \<noteq> 0)"
| "offer_truthy ONull = False"
| "offer_truthy OUndefined = False"

text \<open>
  The numeric value of a price in \<^verbatim>\<open>dealPrice - sellerEst\<close>. Only a truthy price reaches
  the subtraction, and a truthy price is a number; \<^verbatim>\<open>ToNumber(null)\<close> is 0, and the
  \<^verbatim>\<open>NaN\<close> of \<^verbatim>\<open>undefined\<close> is never computed.
\<close>

fun offer_number :: "offer \<Rightarrow> rat" where
  "offer_number (ONum n) = n"
| "offer_number ONull = 0"
| "offer_number OUndefined = 0"

datatype agent_role = Seller | Buyer

fun role_str :: "agent_role \<Rightarrow> string" where
  "role_str Seller = ''seller''"
| "role_str Buyer = ''buyer''"

fun other_role :: "agent_role \<Rightarrow> agent_role" where
  "other_role Seller = Buyer"
| "other_role Buyer = Seller"

text \<open>
  What \<^verbatim>\<open>generateResponse\<close> returns: the parsed fields and the provider's usage
  metadata (\<open>Some n\<close>: a usage object whose output-token count normalises to \<open>n\<close>;
  \<open>None\<close>: no usage metadata).
\<close>

record reply =
  thought :: jsval
  message :: jsval
  offer :: offer
  deal :: jsval
  usage :: "nat option"

text \<open>
  The two ways a match can throw: the error with the message "Benchmark Aborted" that
  \<^verbatim>\<open>runMatch\<close> raises itself, and any other error, which comes out of a call of
  \<^verbatim>\<open>generateResponse\<close> when the provider fails.
\<close>

datatype match_error = BenchmarkAborted | ApiError

text \<open>
  The value that the scheduler stores for a roster entry and hands on as \<^verbatim>\<open>modelId\<close>: a
  string, or (when the lookup in \<open>MODELS\<close> finds a property inherited from
  \<^verbatim>\<open>Object.prototype\<close>) the function or object found there, kept by its property name.
\<close>

datatype model_id = ModelName string | Inherited string

record agent_conf =
  name :: string
  modelId :: model_id

record log_entry =
  turn :: nat
  sender :: string
  role :: agent_role
  content :: reply

text \<open>The lines handed to the \<^verbatim>\<open>logger\<close> callback, one constructor per call site.\<close>

datatype log_line =
    LStartMatch string
  | LMatchup string string
  | LItem string rat
  | LEstimates rat rat
  | LTurn string jsval offer
  | LRejectedMismatch offer offer
  | LRejectedNoValidOffer
  | LEndedTwoNulls
  | LDealReached offer
  | LNoDeal
  | LTournamentStart string nat "string list"
  | LRound nat
  | LTournamentComplete

section \<open>The match engine (server/benchmark.js, runMatch)\<close>

text \<open>The local variables of \<^verbatim>\<open>runMatch\<close> that the loop reads and writes, and the logger output.\<close>

record match_state =
  turns :: nat
  dealReached :: bool
  dealPrice :: offer
  logs :: "log_entry list"
  lastMessage :: jsval
  lastOffer :: offer
  lastOfferBy :: "agent_role option"
  consecutiveNulls :: nat
  activeAgent :: agent_role
  sellerTokens :: nat
  buyerTokens :: nat
  out :: "log_line list"

definition maxTurns :: nat where
  "maxTurns = 12"

definition openingMessage :: string where
  "openingMessage = ''The negotiation has started. Please make your opening statement.''"

definition init_state :: "log_line list \<Rightarrow> match_state" where
  "init_state lg =
     \<lparr>turns = 0, dealReached = False, dealPrice = ONull, logs = [],
      lastMessage = JStr openingMessage, lastOffer = ONull, lastOfferBy = None,
      consecutiveNulls = 0, activeAgent = Seller, sellerTokens = 0, buyerTokens = 0,
      out = lg\<rparr>"

text \<open>Lines 101-117: the check of a \<^verbatim>\<open>deal:true\<close> claim. Returns the state and the (mutated) reply.\<close>

definition validate_deal :: "match_state \<Rightarrow> reply \<Rightarrow> match_state \<times> reply" where
  "validate_deal s response =
     (if truthy (deal response) then
        (if lastOffer s \<noteq> ONull \<and> lastOfferBy s \<noteq> Some (activeAgent s) then
           (if offer response = lastOffer s then
              (s\<lparr>dealPrice := offer response, dealReached := True\<rparr>, response)
            else
              (s\<lparr>out := out s @ [LRejectedMismatch (offer response) (lastOffer s)],
                 dealReached := False\<rparr>,
               response\<lparr>deal := JBool False\<rparr>))
         else
           (s\<lparr>out := out s @ [LRejectedNoValidOffer], dealReached := False\<rparr>,
            response\<lparr>deal := JBool False\<rparr>))
      else (s, response))"

text \<open>Lines 122-134: offer bookkeeping and the silence rule. The flag is the \<^verbatim>\<open>break\<close>.\<close>

definition process_offer :: "match_state \<Rightarrow> reply \<Rightarrow> match_state \<times> bool" where
  "process_offer s response =
     (if \<not> dealReached s then
        (if offer response \<noteq> ONull then
           (s\<lparr>lastOffer := offer response, lastOfferBy := Some (activeAgent s),
              consecutiveNulls := 0\<rparr>, False)
         else
           (let s' = s\<lparr>consecutiveNulls := consecutiveNulls s + 1\<rparr> in
            if consecutiveNulls s' \<ge> 2
            then (s'\<lparr>out := out s' @ [LEndedTwoNulls]\<rparr>, True)
            else (s', False)))
      else (s, False))"

definition agent_name :: "agent_conf \<Rightarrow> agent_conf \<Rightarrow> agent_role \<Rightarrow> string" where
  "agent_name sellerConf buyerConf r = (case r of Seller \<Rightarrow> name sellerConf | Buyer \<Rightarrow> name buyerConf)"

text \<open>\<^verbatim>\<open>trackTokens\<close>: missing usage is skipped.\<close>

definition trackTokens :: "agent_role \<Rightarrow> nat option \<Rightarrow> match_state \<Rightarrow> match_state" where
  "trackTokens r u s =
     (case u of
        None \<Rightarrow> s
      | Some n \<Rightarrow> (case r of Seller \<Rightarrow> s\<lparr>sellerTokens := sellerTokens s + n\<rparr>
                             | Buyer \<Rightarrow> s\<lparr>buyerTokens := buyerTokens s + n\<rparr>))"

text \<open>Lines 136-149: the log entry, the token count, the message handed on, the swap.\<close>

definition finish_turn :: "agent_conf \<Rightarrow> agent_conf \<Rightarrow> match_state \<Rightarrow> reply \<Rightarrow> match_state" where
  "finish_turn sellerConf buyerConf s response =
     (let r = activeAgent s;
          entry = \<lparr>turn = turns s,
                   sender = agent_name sellerConf buyerConf r @ '' ('' @ role_str r @ '')'',
                   role = r,
                   content = response\<lparr>usage := None\<rparr>\<rparr>;
          s1 = s\<lparr>logs := logs s @ [entry]\<rparr>;
          s2 = trackTokens r (usage response) s1
      in s2\<lparr>lastMessage := message response, activeAgent := other_role r\<rparr>)"

text \<open>
  One pass through the loop body after \<^verbatim>\<open>turns++\<close> and the await, for the reply the
  active agent gave. The flag says that the body left the loop through \<^verbatim>\<open>break\<close>.
\<close>

definition turn_body :: "agent_conf \<Rightarrow> agent_conf \<Rightarrow> match_state \<Rightarrow> reply \<Rightarrow> match_state \<times> bool" where
  "turn_body sellerConf buyerConf s response =
     (let s1 = s\<lparr>out := out s @ [LTurn (agent_name sellerConf buyerConf (activeAgent s))
                                        (message response) (offer response)]\<rparr>;
          (s2, response') = validate_deal s1 response;
          (s3, brk) = process_offer s2 response'
      in if brk then (s3, True)
         else (finish_turn sellerConf buyerConf s3 response', False))"

text \<open>
  The surroundings of a run. \<open>gen c\<close> is the outcome of the call of
  \<^verbatim>\<open>generateResponse\<close> that is made after \<open>c\<close> earlier calls of the run
  (\<open>None\<close>: the call threw). The program is single-threaded, so the abort signal can
  only change while it awaits, and every await is such a call: \<open>abortAt = Some a\<close>
  says that the signal is set from the moment \<open>a\<close> calls have completed
  (\<open>Some 0\<close>: set from the start, \<open>Some (Suc n)\<close>: set while call number \<open>n\<close> was
  awaited), \<open>None\<close> that it is never set. \<open>draw k\<close> and \<open>now k\<close> are the random scenario and the
  \<^verbatim>\<open>Date.now().toString()\<close> of the \<open>k\<close>-th match started.
\<close>

record scenario_draw =
  item :: string
  trueValue :: rat
  sellerEst :: rat
  buyerEst :: rat

record env =
  gen :: "nat \<Rightarrow> reply option"
  abortAt :: "nat option"
  draw :: "nat \<Rightarrow> scenario_draw"
  now :: "nat \<Rightarrow> string"

definition aborted :: "env \<Rightarrow> nat \<Rightarrow> bool" where
  "aborted e c = (case abortAt e of None \<Rightarrow> False | Some a \<Rightarrow> a \<le> c)"

lemma turn_body_turns:
  "turn_body sc bc s r = (s', b) \<Longrightarrow> turns s' = turns s"
  by (auto simp: turn_body_def validate_deal_def process_offer_def finish_turn_def
      trackTokens_def Let_def split: if_splits prod.splits option.splits agent_role.splits)

text \<open>
  Lines 91-150: the loop. The result is the error thrown (if any), the variables when the
  loop was left, and the number of calls of \<^verbatim>\<open>generateResponse\<close> completed.
\<close>

function match_loop ::
  "env \<Rightarrow> agent_conf \<Rightarrow> agent_conf \<Rightarrow> nat \<Rightarrow> match_state \<Rightarrow> match_error option \<times> match_state \<times> nat" where
  "match_loop e sellerConf buyerConf c s =
     (if turns s < maxTurns \<and> \<not> dealReached s then
        (if aborted e c then (Some BenchmarkAborted, s, c)
         else
           (case gen e c of
              None \<Rightarrow> (Some ApiError, s\<lparr>turns := turns s + 1\<rparr>, Suc c)
            | Some response \<Rightarrow>
                (case turn_body sellerConf buyerConf (s\<lparr>turns := turns s + 1\<rparr>) response of
                   (s', True) \<Rightarrow> (None, s', Suc c)
                 | (s', False) \<Rightarrow> match_loop e sellerConf buyerConf (Suc c) s')))
      else (None, s, c))"
  by pat_completeness auto
termination
  by (relation "measure (\<lambda>(e, sc, bc, c, s). maxTurns - turns s)")
     (auto dest!: turn_body_turns [OF sym])

declare match_loop.simps [simp del]


section \<open>Scoring and the result record (lines 152-231)\<close>

record party_summary =
  party_name :: string
  model :: model_id
  estimate :: rat
  score :: rat

record party = party_summary +
  thinkingTokens :: nat

text \<open>The \<^verbatim>\<open>date\<close> field (wall-clock time) is left out of both records.\<close>

record match_result =
  res_id :: string
  res_tournament :: "string option"
  res_item :: string
  res_trueValue :: rat
  res_seller :: party
  res_buyer :: party
  res_dealReached :: bool
  res_dealPrice :: offer
  res_turns :: nat
  res_logs :: "log_entry list"

record manifest_entry =
  me_id :: string
  me_tournament :: "string option"
  me_item :: string
  me_trueValue :: rat
  me_dealReached :: bool
  me_dealPrice :: offer
  me_seller :: party_summary
  me_buyer :: party_summary

text \<open>
  The directory \<^verbatim>\<open>public/logs\<close>: the files \<^verbatim>\<open>run_<id>.json\<close> by run id, and
  \<^verbatim>\<open>manifest.json\<close> (newest entry first).
\<close>

record store =
  files :: "string \<rightharpoonup> match_result"
  manifest :: "manifest_entry list"

text \<open>Lines 156-165. The third component is the line logged.\<close>

definition scoring :: "match_state \<Rightarrow> scenario_draw \<Rightarrow> rat \<times> rat \<times> log_line" where
  "scoring s d =
     (if dealReached s \<and> offer_truthy (dealPrice s) then
        ((offer_number (dealPrice s) - sellerEst d) / sellerEst d,
         (buyerEst d - offer_number (dealPrice s)) / buyerEst d,
         LDealReached (dealPrice s))
      else (0, 0, LNoDeal))"

definition summary :: "party \<Rightarrow> party_summary" where
  "summary p = \<lparr>party_name = party_name p, model = model p, estimate = estimate p, score = score p\<rparr>"

definition manifest_of :: "match_result \<Rightarrow> manifest_entry" where
  "manifest_of r =
     \<lparr>me_id = res_id r, me_tournament = res_tournament r, me_item = res_item r,
      me_trueValue = res_trueValue r, me_dealReached = res_dealReached r,
      me_dealPrice = res_dealPrice r, me_seller = summary (res_seller r),
      me_buyer = summary (res_buyer r)\<rparr>"

text \<open>
  Lines 193-229: the run file is written, the manifest is read, extended at its head and
  written back. The manifest on disk is taken to be one that this code wrote (a manifest
  that does not parse would be started afresh), and the writes are taken to succeed.
\<close>

definition persist :: "match_result \<Rightarrow> store \<Rightarrow> store" where
  "persist r st = \<lparr>files = (files st)(res_id r \<mapsto> r), manifest = manifest_of r # manifest st\<rparr>"

text \<open>
  What a run has done so far: the calls of \<^verbatim>\<open>generateResponse\<close> completed, the
  directory of results, the lines logged, and (for the tournament) the matches started, in
  order, each with the names of its seller and buyer, the number of completed calls when
  it was started, and how it ended.
\<close>

record sched_entry =
  sch_seller :: string
  sch_buyer :: string
  sch_at :: nat
  sch_outcome :: "match_error + match_result"

record world =
  clock :: nat
  disk :: store
  logged :: "log_line list"
  trace :: "sched_entry list"

text \<open>
  \<^verbatim>\<open>runMatch(runId, buyerConf, sellerConf, logger, tournamentId, options)\<close>; \<open>k\<close> is
  the number of matches started before this one. \<open>Inl\<close> is the error thrown.
\<close>

definition runMatch ::
  "env \<Rightarrow> string \<Rightarrow> agent_conf \<Rightarrow> agent_conf \<Rightarrow> string option \<Rightarrow> nat \<Rightarrow> world
     \<Rightarrow> (match_error + match_result) \<times> world" where
  "runMatch e runId buyerConf sellerConf tournamentId k w =
     (let d = draw e k;
          lg = logged w @ [LStartMatch runId, LMatchup (name buyerConf) (name sellerConf),
                           LItem (item d) (trueValue d), LEstimates (sellerEst d) (buyerEst d)]
      in if aborted e (clock w) then (Inl BenchmarkAborted, w\<lparr>logged := lg\<rparr>)
         else
           (case match_loop e sellerConf buyerConf (clock w) (init_state lg) of
              (Some err, s, c) \<Rightarrow> (Inl err, w\<lparr>clock := c, logged := out s\<rparr>)
            | (None, s, c) \<Rightarrow>
                (let (sellerScore, buyerScore, line) = scoring s d;
                     result =
                       \<lparr>res_id = runId, res_tournament = tournamentId, res_item = item d,
                        res_trueValue = trueValue d,
                        res_seller = \<lparr>party_name = name sellerConf, model = modelId sellerConf,
                                      estimate = sellerEst d, score = sellerScore,
                                      thinkingTokens = sellerTokens s\<rparr>,
                        res_buyer = \<lparr>party_name = name buyerConf, model = modelId buyerConf,
                                     estimate = buyerEst d, score = buyerScore,
                                     thinkingTokens = buyerTokens s\<rparr>,
                        res_dealReached = dealReached s, res_dealPrice = dealPrice s,
                        res_turns = turns s, res_logs = logs s\<rparr>
                 in (Inr result,
                     w\<lparr>clock := c, disk := persist result (disk w), logged := out s @ [line]\<rparr>))))"


section \<open>The tournament scheduler (server/benchmark.js, runTournament)\<close>

definition MODELS :: "(string \<times> string) list" where
  "MODELS =
     [(''OPUS_4_5'', ''claude-opus-4-5-20251101''),
      (''HAIKU_4_5'', ''claude-haiku-4-5-20251001''),
      (''SONNET_4_5'', ''claude-sonnet-4-5-20250929''),
      (''GEMINI_FLASH_PREVIEW'', ''gemini-3-flash-preview''),
      (''GEMINI_2_5_PRO'', ''gemini-2.5-pro''),
      (''GEMINI_2_5_FLASH'', ''gemini-2.5-flash''),
      (''GPT_5_2'', ''gpt-5.2''),
      (''GPT_5_1'', ''gpt-5.1''),
      (''GPT_5'', ''gpt-5''),
      (''GPT_5_MINI'', ''gpt-5-mini'')]"

text \<open>\<^verbatim>\<open>m.replace(pat, '')\<close> for a string pattern: the first occurrence is removed.\<close>

fun remove_first :: "string \<Rightarrow> string \<Rightarrow> string" where
  "remove_first pat [] = []"
| "remove_first pat (c # cs) =
     (if take (length pat) (c # cs) = pat then drop (length pat) (c # cs)
      else c # remove_first pat cs)"

text \<open>
  \<open>MODELS\<close> is an object literal, so \<^verbatim>\<open>MODELS[cleanKey]\<close> also finds the properties of
  \<^verbatim>\<open>Object.prototype\<close>: eleven functions and the accessor \<^verbatim>\<open>__proto__\<close>, which reads as
  \<^verbatim>\<open>Object.prototype\<close> itself. All twelve values are truthy.
\<close>

definition object_prototype_keys :: "string list" where
  "object_prototype_keys =
     [''constructor'', ''__defineGetter__'', ''__defineSetter__'', ''hasOwnProperty'',
      ''__lookupGetter__'', ''__lookupSetter__'', ''isPrototypeOf'', ''propertyIsEnumerable'',
      ''toString'', ''valueOf'', ''__proto__'', ''toLocaleString'']"

text \<open>
  Lines 255-258, the value stored for the roster entry \<open>m\<close>. Every own value of \<open>MODELS\<close>
  is a non-empty string, hence truthy.
\<close>

definition resolve_model :: "string \<Rightarrow> model_id" where
  "resolve_model m =
     (let cleanKey = remove_first '' 4.5'' m
      in case map_of MODELS cleanKey of
           Some v \<Rightarrow> ModelName v
         | None \<Rightarrow> if cleanKey \<in> set object_prototype_keys then Inherited cleanKey
                     else ModelName m)"

text \<open>
  Lines 253-259: \<open>modelMap\<close> as the list of its own properties in the order of their
  creation; an assignment to a key that exists keeps its place. The assignment
  \<^verbatim>\<open>modelMap["__proto__"] = ...\<close> goes to the accessor of \<^verbatim>\<open>Object.prototype\<close> and creates
  no own property (the value assigned is \<^verbatim>\<open>Object.prototype\<close>, which the object has as its
  prototype already).
\<close>

definition build_modelMap :: "string list \<Rightarrow> (string \<times> model_id) list" where
  "build_modelMap selectedModels =
     foldl (\<lambda>mp m. if m = ''__proto__'' then mp else AList.update m (resolve_model m) mp)
       [] selectedModels"

text \<open>
  The array indices among the property keys: the canonical decimal numerals of the
  integers from 0 to 4294967294.
\<close>

definition is_digit :: "char \<Rightarrow> bool" where
  "is_digit c = (c \<in> set ''0123456789'')"

definition digits_value :: "string \<Rightarrow> int" where
  "digits_value s = foldl (\<lambda>n c. 10 * n + (of_char c - 48)) 0 s"

definition array_index :: "string \<Rightarrow> int option" where
  "array_index s =
     (if s \<noteq> [] \<and> list_all is_digit s \<and> (hd s \<noteq> CHR ''0'' \<or> s = ''0'') \<and>
         digits_value s < 4294967295
      then Some (digits_value s) else None)"

text \<open>
  Line 260, \<^verbatim>\<open>Object.keys(modelMap)\<close>: the keys that are array indices in ascending
  numeric order, then the other keys in the order of their creation.
\<close>

definition Object_keys :: "(string \<times> 'v) list \<Rightarrow> string list" where
  "Object_keys obj =
     sort_key (\<lambda>k. the (array_index k)) (filter (\<lambda>k. array_index k \<noteq> None) (map fst obj)) @
     filter (\<lambda>k. array_index k = None) (map fst obj)"

text \<open>
  The options of a tournament: \<open>rounds = 0\<close> stands for a value that is missing or
  falsy, \<open>models = None\<close> for a missing roster, the empty \<open>tournamentName\<close> for a
  missing or empty name. The signal of the options is in the environment.
\<close>

record options =
  rounds :: nat
  models :: "string list option"
  tournamentName :: string

definition defaultModels :: "string list" where
  "defaultModels = [''OPUS 4.5'', ''HAIKU 4.5'', ''SONNET 4.5'', ''GPT 5'', ''GEMINI 2.5 PRO'']"

text \<open>
  One \<^verbatim>\<open>try { await runMatch(...) } catch\<close> block of the scheduler, with the run id built
  before it. The match is recorded in the trace; the error, if any, is handed back for the
  \<^verbatim>\<open>catch\<close>.
\<close>

definition run_scheduled ::
  "env \<Rightarrow> (string \<times> model_id) list \<Rightarrow> string \<Rightarrow> string \<Rightarrow> string \<Rightarrow> string \<Rightarrow> world
     \<Rightarrow> (match_error + match_result) \<times> world" where
  "run_scheduled e modelMap tournamentId suffix buyerKey sellerKey w =
     (let k = length (trace w);
          runId = now e k @ suffix;
          (res, w') = runMatch e runId
                        \<lparr>name = buyerKey, modelId = the (map_of modelMap buyerKey)\<rparr>
                        \<lparr>name = sellerKey, modelId = the (map_of modelMap sellerKey)\<rparr>
                        (Some tournamentId) k w
      in (res, w'\<lparr>trace := trace w' @ [\<lparr>sch_seller = sellerKey, sch_buyer = buyerKey,
                                         sch_at = clock w, sch_outcome = res\<rparr>]\<rparr>))"

text \<open>
  Lines 275-313, the loop over \<open>j\<close>. The first component is the error rethrown
  (\<^verbatim>\<open>if (e.message === "Benchmark Aborted") throw e\<close>); any other error is printed and
  dropped. A \<^verbatim>\<open>break\<close> leaves this loop only.
\<close>

function pair_loop ::
  "env \<Rightarrow> (string \<times> model_id) list \<Rightarrow> string \<Rightarrow> string list \<Rightarrow> nat \<Rightarrow> nat \<Rightarrow> world
     \<Rightarrow> match_error option \<times> world" where
  "pair_loop e modelMap tournamentId modelKeys i j w =
     (if j < length modelKeys then
        (if aborted e (clock w) then (None, w)
         else
           (let m1 = modelKeys ! i;
                m2 = modelKeys ! j
            in case run_scheduled e modelMap tournamentId ''_1'' m2 m1 w of
                 (Inl BenchmarkAborted, w1) \<Rightarrow> (Some BenchmarkAborted, w1)
               | (_, w1) \<Rightarrow>
                   (if aborted e (clock w1) then (None, w1)
                    else
                      (case run_scheduled e modelMap tournamentId ''_2'' m1 m2 w1 of
                         (Inl BenchmarkAborted, w2) \<Rightarrow> (Some BenchmarkAborted, w2)
                       | (_, w2) \<Rightarrow>
                           pair_loop e modelMap tournamentId modelKeys i (Suc j) w2))))
      else (None, w))"
  by pat_completeness auto
termination
  by (relation "measure (\<lambda>(e, mm, t, ks, i, j, w). length ks - j)") auto

declare pair_loop.simps [simp del]

text \<open>Lines 274-314, the loop over \<open>i\<close>.\<close>

function row_loop ::
  "env \<Rightarrow> (string \<times> model_id) list \<Rightarrow> string \<Rightarrow> string list \<Rightarrow> nat \<Rightarrow> world
     \<Rightarrow> match_error option \<times> world" where
  "row_loop e modelMap tournamentId modelKeys i w =
     (if i < length modelKeys then
        (case pair_loop e modelMap tournamentId modelKeys i (Suc i) w of
           (Some err, w') \<Rightarrow> (Some err, w')
         | (None, w') \<Rightarrow> row_loop e modelMap tournamentId modelKeys (Suc i) w')
      else (None, w))"
  by pat_completeness auto
termination
  by (relation "measure (\<lambda>(e, mm, t, ks, i, w). length ks - i)") auto

declare row_loop.simps [simp del]

text \<open>Lines 271-315, the loop over the rounds.\<close>

function round_loop ::
  "env \<Rightarrow> (string \<times> model_id) list \<Rightarrow> string \<Rightarrow> string list \<Rightarrow> nat \<Rightarrow> nat \<Rightarrow> world
     \<Rightarrow> match_error option \<times> world" where
  "round_loop e modelMap tournamentId modelKeys n r w =
     (if r < n then
        (if aborted e (clock w) then (None, w)
         else
           (case row_loop e modelMap tournamentId modelKeys 0
                   (w\<lparr>logged := logged w @ [LRound (r + 1)]\<rparr>) of
              (Some err, w') \<Rightarrow> (Some err, w')
            | (None, w') \<Rightarrow> round_loop e modelMap tournamentId modelKeys n (Suc r) w'))
      else (None, w))"
  by pat_completeness auto
termination
  by (relation "measure (\<lambda>(e, mm, t, ks, n, r, w). n - r)") auto

declare round_loop.simps [simp del]

text \<open>
  \<^verbatim>\<open>runTournament(options, logger)\<close>. \<open>randomName\<close> is the name drawn at lines 263-265.
  \<open>Inl\<close> is the error thrown out of the function, \<open>Inr ()\<close> a normal return.
\<close>

definition runTournament ::
  "env \<Rightarrow> string \<Rightarrow> options \<Rightarrow> world \<Rightarrow> (match_error + unit) \<times> world" where
  "runTournament e randomName opts w =
     (let n = (if rounds opts = 0 then 1 else rounds opts);
          selectedModels = (case models opts of None \<Rightarrow> defaultModels | Some ms \<Rightarrow> ms);
          modelMap = build_modelMap selectedModels;
          modelKeys = Object_keys modelMap;
          tournamentId = (if tournamentName opts = [] then randomName else tournamentName opts);
          w0 = w\<lparr>logged := logged w @ [LTournamentStart tournamentId n modelKeys]\<rparr>
      in case round_loop e modelMap tournamentId modelKeys n 0 w0 of
           (Some err, w') \<Rightarrow> (Inl err, w')
         | (None, w') \<Rightarrow> (Inr (), w'\<lparr>logged := logged w' @ [LTournamentComplete]\<rparr>))"


section \<open>The agent's reading of the model output (generateResponse)\<close>

text \<open>
  The agent of the server (server/agents.js, the second part of src/server/server.js).
  The agent of the standalone runner (benchmark-cli/agents.js, lines 81-100) reads the
  text in the same way and returns the parsed value itself, without the usage metadata.
\<close>

text \<open>
  What \<^verbatim>\<open>JSON.parse\<close> returns when it does not throw, as far as the spread
  \<^verbatim>\<open>{ ...data, usage }\<close> can tell: an object with its \<^verbatim>\<open>thought\<close>, \<^verbatim>\<open>message\<close>,
  \<^verbatim>\<open>offer\<close> and \<^verbatim>\<open>deal\<close> (undefined for a missing key), or a value that has none of
  these keys (a number, a string, a boolean, null, an array). \<^verbatim>\<open>JSON.parse\<close> itself is
  the library's and is a parameter \<open>parse\<close> below; \<open>None\<close> is its \<^verbatim>\<open>SyntaxError\<close>.
\<close>

datatype parsed = PObject jsval jsval offer jsval | POther

text \<open>
  \<^verbatim>\<open>textResponse.match(/\{[\s\S]*\}/)\<close>: the leftmost \<^verbatim>\<open>{\<close> that has a \<^verbatim>\<open>}\<close> somewhere
  after it, and, the star being greedy, everything up to the last \<^verbatim>\<open>}\<close> of the text.
\<close>

definition jsonMatch :: "string \<Rightarrow> string option" where
  "jsonMatch text =
     (let s = dropWhile (\<lambda>c. c \<noteq> CHR ''{'') text
      in if CHR ''}'' \<in> set s
         then Some (rev (dropWhile (\<lambda>c. c \<noteq> CHR ''}'') (rev s)))
         else None)"

definition fallback :: "string \<Rightarrow> parsed" where
  "fallback textResponse =
     PObject (JStr ''Failed to parse JSON output'') (JStr textResponse) ONull (JBool False)"

text \<open>Lines 261-278 of the agent: the inner \<^verbatim>\<open>try\<close>/\<^verbatim>\<open>catch\<close>.\<close>

definition parse_data :: "(string \<Rightarrow> parsed option) \<Rightarrow> string \<Rightarrow> parsed" where
  "parse_data parse textResponse =
     (case (case jsonMatch textResponse of
              Some m \<Rightarrow> parse m
            | None \<Rightarrow> parse textResponse) of
        Some d \<Rightarrow> d
      | None \<Rightarrow> fallback textResponse)"

text \<open>\<^verbatim>\<open>{ ...data, usage: this.lastUsage }\<close>.\<close>

fun spread :: "parsed \<Rightarrow> nat option \<Rightarrow> reply" where
  "spread (PObject t m off d) u = \<lparr>thought = t, message = m, offer = off, deal = d, usage = u\<rparr>"
| "spread POther u =
     \<lparr>thought = JUndefined, message = JUndefined, offer = OUndefined, deal = JUndefined, usage = u\<rparr>"

text \<open>
  \<^verbatim>\<open>generateResponse\<close> from the provider's answer on: \<open>api\<close> is \<open>Inl\<close> when the provider
  call threw (the outer \<^verbatim>\<open>catch\<close> rethrows), and the raw text with the usage metadata
  otherwise. The transcript kept in \<^verbatim>\<open>this.history\<close> is not modelled.
\<close>

definition generateResponse ::
  "(string \<Rightarrow> parsed option) \<Rightarrow> match_error + string \<times> nat option \<Rightarrow> match_error + reply" where
  "generateResponse parse api =
     (case api of
        Inl err \<Rightarrow> Inl err
      | Inr (textResponse, lastUsage) \<Rightarrow> Inr (spread (parse_data parse textResponse) lastUsage))"

subsection \<open>The parsing order as the specification words it\<close>

text \<open>
  The specification's order: the whole text is parsed first; if that gives no object, the
  first top-level \<^verbatim>\<open>{...}\<close> block (from the first \<^verbatim>\<open>{\<close> to the brace that closes it) is
  parsed; if that fails too, the fallback is used.
\<close>

fun close_block :: "nat \<Rightarrow> string \<Rightarrow> string option" where
  "close_block depth [] = None"
| "close_block depth (c # cs) =
     (if c = CHR ''{'' then map_option (Cons c) (close_block (Suc depth) cs)
      else if c = CHR ''}'' then
        (if depth \<le> 1 then Some [c] else map_option (Cons c) (close_block (depth - 1) cs))
      else map_option (Cons c) (close_block depth cs))"

definition first_block :: "string \<Rightarrow> string option" where
  "first_block text = close_block 0 (dropWhile (\<lambda>c. c \<noteq> CHR ''{'') text)"

definition is_object :: "parsed option \<Rightarrow> bool" where
  "is_object p = (case p of Some (PObject t m off d) \<Rightarrow> True | _ \<Rightarrow> False)"

definition spec_parse_data :: "(string \<Rightarrow> parsed option) \<Rightarrow> string \<Rightarrow> parsed" where
  "spec_parse_data parse text =
     (if is_object (parse text) then the (parse text)
      else
        (case first_block text of
           Some b \<Rightarrow> (if is_object (parse b) then the (parse b) else fallback text)
         | None \<Rightarrow> fallback text))"


section \<open>The standalone runner (src/unnamed/part_000, the runMatch beside benchmark-cli/agents.js)\<close>

text \<open>
  The older runner has the same loop without the cancellation, without the record of who
  made the pending offer and without the silence rule; it compares with \<^verbatim>\<open>==\<close>, and
  it starts both scores at -0.5. Its variables are kept in a \<open>match_state\<close> whose
  remaining fields it does not touch. The fixed scenario and what it writes to disk are
  left out of the result.
\<close>

text \<open>\<^verbatim>\<open>==\<close> on offers: \<^verbatim>\<open>null\<close> and \<^verbatim>\<open>undefined\<close> are equal to each other and to nothing else.\<close>

fun loose_eq :: "offer \<Rightarrow> offer \<Rightarrow> bool" where
  "loose_eq (ONum a) (ONum b) = (a = b)"
| "loose_eq (ONum a) ONull = False"
| "loose_eq (ONum a) OUndefined = False"
| "loose_eq ONull (ONum b) = False"
| "loose_eq OUndefined (ONum b) = False"
| "loose_eq ONull ONull = True"
| "loose_eq ONull OUndefined = True"
| "loose_eq OUndefined ONull = True"
| "loose_eq OUndefined OUndefined = True"

definition cli_name :: "agent_role \<Rightarrow> string" where
  "cli_name r = (case r of Seller \<Rightarrow> ''Opus 4.5'' | Buyer \<Rightarrow> ''Haiku 4.5'')"

text \<open>Lines 73-107 of the runner: the body of its loop after \<^verbatim>\<open>turns++\<close> and the await.\<close>

definition cli_turn_body :: "match_state \<Rightarrow> reply \<Rightarrow> match_state" where
  "cli_turn_body s response =
     (let r = activeAgent s;
          s1 = s\<lparr>out := out s @ [LTurn (cli_name r) (message response) (offer response)]\<rparr>;
          (s2, response') =
            (if truthy (deal response) then
               (if lastOffer s1 \<noteq> ONull \<and> loose_eq (offer response) (lastOffer s1) then
                  (s1\<lparr>dealPrice := offer response, dealReached := True\<rparr>, response)
                else
                  (s1\<lparr>out := out s1 @ [LRejectedMismatch (offer response) (lastOffer s1)],
                      dealReached := False\<rparr>,
                   response\<lparr>deal := JBool False\<rparr>))
             else if offer response \<noteq> ONull then (s1\<lparr>lastOffer := offer response\<rparr>, response)
             else (s1, response))
      in s2\<lparr>logs := logs s2 @ [\<lparr>turn = turns s2, sender = cli_name r, role = r, content = response'\<rparr>],
            lastMessage := message response', activeAgent := other_role r\<rparr>)"

lemma cli_turn_body_turns: "turns (cli_turn_body s r) = turns s"
  by (simp add: cli_turn_body_def Let_def split: prod.splits)

text \<open>Lines 69-108 of the runner; \<open>g c\<close> is the outcome of its call number \<open>c\<close> of \<^verbatim>\<open>generateResponse\<close>.\<close>

function cli_loop :: "(nat \<Rightarrow> reply option) \<Rightarrow> nat \<Rightarrow> match_state \<Rightarrow> match_error option \<times> match_state" where
  "cli_loop g c s =
     (if turns s < maxTurns \<and> \<not> dealReached s then
        (case g c of
           None \<Rightarrow> (Some ApiError, s\<lparr>turns := turns s + 1\<rparr>)
         | Some response \<Rightarrow> cli_loop g (Suc c) (cli_turn_body (s\<lparr>turns := turns s + 1\<rparr>) response))
      else (None, s))"
  by pat_completeness auto
termination
  by (relation "measure (\<lambda>(g, c, s). maxTurns - turns s)") (auto simp: cli_turn_body_turns)

declare cli_loop.simps [simp del]

record cli_result =
  cli_sellerScore :: rat
  cli_buyerScore :: rat
  cli_dealReached :: bool
  cli_dealPrice :: offer
  cli_turns :: nat
  cli_logs :: "log_entry list"

text \<open>The runner's \<^verbatim>\<open>runMatch\<close> with its scoring (lines 110-122), for the two estimates of \<open>d\<close>.\<close>

definition cli_runMatch :: "(nat \<Rightarrow> reply option) \<Rightarrow> scenario_draw \<Rightarrow> match_error + cli_result" where
  "cli_runMatch g d =
     (case cli_loop g 0 (init_state []) of
        (Some err, s) \<Rightarrow> Inl err
      | (None, s) \<Rightarrow>
          (let (sellerScore, buyerScore) =
                 (if dealReached s \<and> offer_truthy (dealPrice s) then
                    ((offer_number (dealPrice s) - sellerEst d) / sellerEst d,
                     (buyerEst d - offer_number (dealPrice s)) / buyerEst d)
                  else (- (1 / 2), - (1 / 2)))
           in Inr \<lparr>cli_sellerScore = sellerScore, cli_buyerScore = buyerScore,
                   cli_dealReached = dealReached s, cli_dealPrice = dealPrice s,
                   cli_turns = turns s, cli_logs = logs s\<rparr>))"

section \<open>Notions used to state the properties\<close>

text \<open>The three conditions under which the engine honours a deal claim, read in the state before the turn.\<close>

definition accepted :: "match_state \<Rightarrow> reply \<Rightarrow> bool" where
  "accepted s response =
     (lastOffer s \<noteq> ONull \<and> lastOfferBy s \<noteq> Some (activeAgent s) \<and> offer response = lastOffer s)"

text \<open>The line logged when a deal claim is turned down.\<close>

definition rejection :: "match_state \<Rightarrow> reply \<Rightarrow> log_line" where
  "rejection s response =
     (if lastOffer s \<noteq> ONull \<and> lastOfferBy s \<noteq> Some (activeAgent s)
      then LRejectedMismatch (offer response) (lastOffer s) else LRejectedNoValidOffer)"

text \<open>The results of the matches of a trace that ran to completion, in order.\<close>

definition completed :: "sched_entry list \<Rightarrow> match_result list" where
  "completed tr = concat (map (\<lambda>x. case sch_outcome x of Inr r \<Rightarrow> [r] | Inl err \<Rightarrow> []) tr)"

text \<open>
  The round robin as the specification words it: for the pair of the entries at \<open>i < j\<close>,
  two matches, written (seller, buyer): the first entry sells to the second, then the
  second sells to the first; a round takes every such pair.
\<close>

definition pair_matches :: "string list \<Rightarrow> nat \<Rightarrow> nat \<Rightarrow> (string \<times> string) list" where
  "pair_matches ks i j = [(ks ! i, ks ! j), (ks ! j, ks ! i)]"

definition round_schedule :: "string list \<Rightarrow> (string \<times> string) list" where
  "round_schedule ks =
     concat (map (\<lambda>i. concat (map (pair_matches ks i) [Suc i..<length ks])) [0..<length ks])"

definition names :: "sched_entry list \<Rightarrow> (string \<times> string) list" where
  "names tr = map (\<lambda>x. (sch_seller x, sch_buyer x)) tr"

text \<open>
  The matches announced by the logger, in order, read off the lines
  \<^verbatim>\<open>Matchup: <buyer> (Buyer) vs <seller> (Seller)\<close> that \<^verbatim>\<open>runMatch\<close> prints; written
  (seller, buyer) like the schedule.
\<close>

definition matchups :: "log_line list \<Rightarrow> (string \<times> string) list" where
  "matchups ls = concat (map (\<lambda>l. case l of LMatchup b s \<Rightarrow> [(s, b)] | _ \<Rightarrow> []) ls)"

text \<open>
  The result of a completed match names its seller and its buyer as the scheduler recorded
  them when it started the match.
\<close>

definition played :: "sched_entry \<Rightarrow> bool" where
  "played x =
     (case sch_outcome x of
        Inr r \<Rightarrow> party_name (res_seller r) = sch_seller x \<and> party_name (res_buyer r) = sch_buyer x
      | Inl err \<Rightarrow> True)"

text \<open>
  No call of \<^verbatim>\<open>generateResponse\<close> was begun with the signal set, between the moments when
  \<open>c\<close> and when \<open>c'\<close> calls had completed: the signal is set once \<open>a\<close> calls have
  completed, so a run that stands at \<open>c < a\<close> may go on up to \<open>a\<close> completed calls, and
  a run that stands at \<open>c \<ge> a\<close> makes no call at all.
\<close>

definition no_call_after_signal :: "env \<Rightarrow> nat \<Rightarrow> nat \<Rightarrow> bool" where
  "no_call_after_signal e c c' = (case abortAt e of None \<Rightarrow> True | Some a \<Rightarrow> c' \<le> max a c)"

text \<open>
  A completed match took one call for each of its turns, so it began its last turn when
  \<open>sch_at x + res_turns r - 1\<close> calls had completed: none of its turns was begun with
  the signal set.
\<close>

definition timely :: "env \<Rightarrow> sched_entry \<Rightarrow> bool" where
  "timely e x =
     (case sch_outcome x of
        Inr r \<Rightarrow> no_call_after_signal e (sch_at x) (sch_at x + res_turns r)
      | Inl err \<Rightarrow> True)"

text \<open>
  The lines that \<^verbatim>\<open>runMatch\<close> logs before anything else, and the match in flight: the
  match that was started in the world \<open>w\<close> (as the \<open>k\<close>-th of the run, with the signal not
  set) stands at the head of its loop with \<open>c\<close> calls completed and the variables \<open>s\<close>,
  so that what is left of it is the loop run from there.
\<close>

definition start_lines :: "env \<Rightarrow> string \<Rightarrow> agent_conf \<Rightarrow> agent_conf \<Rightarrow> nat \<Rightarrow> log_line list" where
  "start_lines e runId buyerConf sellerConf k =
     [LStartMatch runId, LMatchup (name buyerConf) (name sellerConf),
      LItem (item (draw e k)) (trueValue (draw e k)),
      LEstimates (sellerEst (draw e k)) (buyerEst (draw e k))]"

definition in_flight ::
  "env \<Rightarrow> string \<Rightarrow> agent_conf \<Rightarrow> agent_conf \<Rightarrow> nat \<Rightarrow> world \<Rightarrow> nat \<Rightarrow> match_state \<Rightarrow> bool" where
  "in_flight e runId buyerConf sellerConf k w c s =
     (\<not> aborted e (clock w) \<and>
      match_loop e sellerConf buyerConf (clock w)
        (init_state (logged w @ start_lines e runId buyerConf sellerConf k)) =
      match_loop e sellerConf buyerConf c s)"


text \<open>The keys of \<open>modelMap\<close> for the roster of the options.\<close>

definition roster_keys :: "options \<Rightarrow> string list" where
  "roster_keys opts =
     Object_keys (build_modelMap (case models opts of None \<Rightarrow> defaultModels | Some ms \<Rightarrow> ms))"

text \<open>The text that the agent hands to \<^verbatim>\<open>JSON.parse\<close>.\<close>

definition candidate :: "string \<Rightarrow> string" where
  "candidate text = (case jsonMatch text of Some m \<Rightarrow> m | None \<Rightarrow> text)"

text \<open>
  How a stretch of a tournament relates the world before it to the world after it: the
  trace grows by the matches \<open>new\<close>, the clock does not go back and no call is begun with
  the signal set, the directory changes by the results of the completed matches of
  \<open>new\<close>, in order, the logger has announced the matches of \<open>new\<close>, and every match of
  \<open>new\<close> was started while the abort signal was not set.
\<close>

definition seg :: "env \<Rightarrow> world \<Rightarrow> world \<Rightarrow> sched_entry list \<Rightarrow> bool" where
  "seg e w w' new =
     (trace w' = trace w @ new \<and> clock w \<le> clock w' \<and>
      no_call_after_signal e (clock w) (clock w') \<and>
      disk w' = foldl (\<lambda>d r. persist r d) (disk w) (completed new) \<and>
      matchups (logged w') = matchups (logged w) @ names new \<and>
      list_all (\<lambda>x. \<not> aborted e (sch_at x) \<and> clock w \<le> sch_at x \<and> played x \<and> timely e x) new)"

text \<open>
  How the stretch ended: normally, and then no match of it threw the abort; or with the
  abort rethrown, and then the last match started is the one that threw it.
\<close>

definition fin :: "env \<Rightarrow> match_error option \<Rightarrow> world \<Rightarrow> sched_entry list \<Rightarrow> bool" where
  "fin e err w' new =
     (case err of
        None \<Rightarrow> list_all (\<lambda>x. sch_outcome x \<noteq> Inl BenchmarkAborted) new
      | Some x \<Rightarrow> x = BenchmarkAborted \<and> aborted e (clock w') \<and> new \<noteq> [] \<and>
                  sch_outcome (last new) = Inl BenchmarkAborted \<and>
                  list_all (\<lambda>x. sch_outcome x \<noteq> Inl BenchmarkAborted) (butlast new))"

definition good :: "env \<Rightarrow> world \<Rightarrow> world \<Rightarrow> match_error option \<Rightarrow> bool" where
  "good e w w' err = (\<exists>new. seg e w w' new \<and> fin e err w' new)"

text \<open>
  What the log of a match looks like. While the loop runs (\<open>logs_ok\<close>): one entry for each
  turn taken, numbered from 1, and a truthy deal flag at most in the last entry, and only
  once the deal is reached. When the loop is left (\<open>logs_final\<close>): the same, or else the
  entry of the last turn is missing, the loop was left through the silence rule, and there
  is no deal.
\<close>

definition falsy_deal :: "log_entry \<Rightarrow> bool" where
  "falsy_deal x = (\<not> truthy (deal (content x)))"

definition logs_ok :: "match_state \<Rightarrow> bool" where
  "logs_ok s =
     (map turn (logs s) = [1..<Suc (turns s)] \<and>
      list_all falsy_deal (butlast (logs s)) \<and>
      (dealReached s \<or> list_all falsy_deal (logs s)))"

definition logs_final :: "match_state \<Rightarrow> bool" where
  "logs_final s =
     (list_all falsy_deal (butlast (logs s)) \<and>
      (dealReached s \<or> list_all falsy_deal (logs s)) \<and>
      (if map turn (logs s) = [1..<Suc (turns s)] then True
       else map turn (logs s) = [1..<turns s] \<and> last (out s) = LEndedTwoNulls \<and> \<not> dealReached s))"

section \<open>Concrete runs\<close>

definition say :: "offer \<Rightarrow> bool \<Rightarrow> reply" where
  "say off d = \<lparr>thought = JStr ''t'', message = JStr ''m'', offer = off, deal = JBool d, usage = None\<rparr>"

definition rolex :: scenario_draw where
  "rolex = \<lparr>item = ''Vintage Rolex Watch'', trueValue = 38000, sellerEst = 40000, buyerEst = 36000\<rparr>"

text \<open>The agents answer with the replies of the list, in order; a call beyond the list fails.\<close>

definition script :: "reply list \<Rightarrow> nat option \<Rightarrow> env" where
  "script rs a =
     \<lparr>gen = (\<lambda>c. if c < length rs then Some (rs ! c) else None), abortAt = a,
      draw = (\<lambda>k. rolex), now = (\<lambda>k. ''1700000000000'')\<rparr>"

definition fresh :: world where
  "fresh = \<lparr>clock = 0, disk = \<lparr>files = Map.empty, manifest = []\<rparr>, logged = [], trace = []\<rparr>"

definition sellerA :: agent_conf where
  "sellerA = \<lparr>name = ''A'', modelId = ModelName ''a''\<rparr>"

definition buyerB :: agent_conf where
  "buyerB = \<lparr>name = ''B'', modelId = ModelName ''b''\<rparr>"

definition duel :: options where
  "duel = \<lparr>rounds = 1, models = Some [''A'', ''B''], tournamentName = ''T''\<rparr>"

text \<open>The seller names no price, the buyer then claims a deal and names none either.\<close>

definition claim_into_silence :: "reply list" where
  "claim_into_silence = [say ONull False, say ONull True]"

text \<open>The seller offers the item for 0, the buyer accepts.\<close>

definition given_away :: "reply list" where
  "given_away = [say (ONum 0) False, say (ONum 0) True]"

text \<open>Two replies without an \<^verbatim>\<open>offer\<close> key, then two with \<^verbatim>\<open>offer: null\<close>.\<close>

definition missing_then_null :: "reply list" where
  "missing_then_null = [say OUndefined False, say OUndefined False, say ONull False, say ONull False]"

definition two_nulls :: "reply list" where
  "two_nulls = [say ONull False, say ONull False]"

text \<open>A reply without an \<^verbatim>\<open>offer\<close> key, then a deal claim without one.\<close>

definition claim_without_price :: "reply list" where
  "claim_without_price = [say OUndefined False, say OUndefined True]"

text \<open>
  Rosters with an array index among the names, with \<^verbatim>\<open>__proto__\<close>, and with the name of
  a function that \<open>MODELS\<close> inherits.
\<close>

definition with_index :: options where
  "with_index = \<lparr>rounds = 1, models = Some [''B'', ''10'', ''A'', ''9'', ''07''], tournamentName = ''T''\<rparr>"

definition with_proto :: options where
  "with_proto = \<lparr>rounds = 1, models = Some [''__proto__'', ''A'', ''B''], tournamentName = ''T''\<rparr>"

text \<open>The seller offers 50000, the buyer names no price, the seller claims a deal and names none.\<close>

definition own_offer_claimed :: "reply list" where
  "own_offer_claimed = [say (ONum 50000) False, say ONull False, say ONull True]"

definition haggling :: "reply list" where
  "haggling = [say (ONum 50000) False, say (ONum 30000) False, say (ONum 45000) False]"

text \<open>
  The variables of the match of \<open>sellerA\<close> and \<open>buyerB\<close> over \<open>haggling\<close> when the signal,
  set during its first call, stops it before its second turn.
\<close>

definition after_first_turn :: match_state where
  "after_first_turn =
     fst (snd (match_loop (script haggling (Some 1)) sellerA buyerB 0
       (init_state (start_lines (script haggling (Some 1)) ''r'' buyerB sellerA 0))))"

definition four_nulls :: "reply list" where
  "four_nulls = [say ONull False, say ONull False, say ONull False, say ONull False]"

text \<open>Twelve turns of offers that never meet.\<close>

definition stubborn :: "nat \<Rightarrow> reply option" where
  "stubborn c = Some (say (ONum (if even c then 50000 else 30000)) False)"

text \<open>The seller offers 50000, the buyer names no price, the seller accepts the 50000.\<close>

definition own_offer_accepted :: "reply list" where
  "own_offer_accepted = [say (ONum 50000) False, say ONull False, say (ONum 50000) True]"

text \<open>An answer of the model that holds two brace blocks, and \<^verbatim>\<open>JSON.parse\<close> on the two strings it is asked about there.\<close>

definition two_blocks :: string where
  "two_blocks = ''{} and {}''"

definition parse_two_blocks :: "string \<Rightarrow> parsed option" where
  "parse_two_blocks t =
     (if t = ''{}'' then Some (PObject JUndefined JUndefined OUndefined JUndefined) else None)"



section \<open>Facts about one turn and about the loop\<close>

lemmas turn_defs = turn_body_def validate_deal_def process_offer_def finish_turn_def
  trackTokens_def Let_def

lemma turn_body_claim:
  assumes "\<not> dealReached s" "truthy (deal response)" "turn_body sc bc s response = (s', brk)"
  shows "dealReached s' = accepted s response"
    and "accepted s response \<Longrightarrow> dealPrice s' = offer response \<and> \<not> brk"
    and "\<not> accepted s response \<Longrightarrow> rejection s response \<in> set (drop (length (out s)) (out s'))"
    and "\<not> accepted s response \<Longrightarrow> brk = (offer response = ONull \<and> 1 \<le> consecutiveNulls s)"
    and "\<not> accepted s response \<Longrightarrow> \<not> brk \<Longrightarrow> deal (content (last (logs s'))) = JBool False"
  using assms
  by (auto simp: turn_defs accepted_def rejection_def split: if_splits option.splits agent_role.splits)

lemma turn_body_null:
  assumes "\<not> dealReached s" "offer r = ONull" "turn_body sc bc s r = (s', brk)"
  shows "\<not> dealReached s' \<and> turns s' = turns s \<and> brk = (1 \<le> consecutiveNulls s) \<and>
         (brk \<longrightarrow> last (out s') = LEndedTwoNulls) \<and>
         (\<not> brk \<longrightarrow> consecutiveNulls s' = consecutiveNulls s + 1)"
  using assms
  by (auto simp: turn_defs split: if_splits option.splits agent_role.splits)

lemma loop_step:
  assumes "turns s < maxTurns" "\<not> dealReached s" "\<not> aborted e c" "gen e c = Some response"
    and "turn_body sc bc (s\<lparr>turns := turns s + 1\<rparr>) response = (s', brk)"
  shows "match_loop e sc bc c s = (if brk then (None, s', Suc c) else match_loop e sc bc (Suc c) s')"
  using assms by (subst match_loop.simps) simp

lemma loop_exit:
  "\<not> (turns s < maxTurns \<and> \<not> dealReached s) \<Longrightarrow> match_loop e sc bc c s = (None, s, c)"
  by (subst match_loop.simps) auto

lemma loop_abort:
  "turns s < maxTurns \<and> \<not> dealReached s \<Longrightarrow> aborted e c \<Longrightarrow>
   match_loop e sc bc c s = (Some BenchmarkAborted, s, c)"
  by (subst match_loop.simps) simp

lemma loop_api_error:
  "turns s < maxTurns \<and> \<not> dealReached s \<Longrightarrow> \<not> aborted e c \<Longrightarrow> gen e c = None \<Longrightarrow>
   match_loop e sc bc c s = (Some ApiError, s\<lparr>turns := turns s + 1\<rparr>, Suc c)"
  by (subst match_loop.simps) simp

lemma aborted_mono: "aborted e c \<Longrightarrow> c \<le> c' \<Longrightarrow> aborted e c'"
  by (auto simp: aborted_def split: option.splits)

lemma never_aborted: "abortAt e = None \<Longrightarrow> \<not> aborted e c"
  by (simp add: aborted_def)

lemma match_loop_facts:
  "match_loop e sc bc c s = (err, s', c') \<Longrightarrow>
     c \<le> c' \<and> (err = Some BenchmarkAborted \<longrightarrow> aborted e c') \<and>
     (err \<noteq> None \<longrightarrow> err = Some BenchmarkAborted \<or> err = Some ApiError)"
proof (induction e sc bc c s arbitrary: err s' c' rule: match_loop.induct)
  case (1 e sellerConf buyerConf c s)
  show ?case
  proof (cases "turns s < maxTurns \<and> \<not> dealReached s")
    case False
    with "1.prems" show ?thesis by (subst (asm) match_loop.simps) auto
  next
    case go: True
    show ?thesis
    proof (cases "aborted e c")
      case True
      with go "1.prems" show ?thesis by (subst (asm) match_loop.simps) auto
    next
      case na: False
      show ?thesis
      proof (cases "gen e c")
        case None
        with go na "1.prems" show ?thesis by (subst (asm) match_loop.simps) auto
      next
        case (Some response)
        obtain s1 b where tb:
          "turn_body sellerConf buyerConf (s\<lparr>turns := turns s + 1\<rparr>) response = (s1, b)"
          by (cases "turn_body sellerConf buyerConf (s\<lparr>turns := turns s + 1\<rparr>) response")
        show ?thesis
        proof (cases b)
          case True
          with go na Some tb "1.prems" show ?thesis by (subst (asm) match_loop.simps) auto
        next
          case False
          with go na Some tb "1.prems"
          have "match_loop e sellerConf buyerConf (Suc c) s1 = (err, s', c')"
            by (subst (asm) match_loop.simps) auto
          from "1.IH" [OF go na Some tb [symmetric] _ this] False
          show ?thesis by auto
        qed
      qed
    qed
  qed
qed

lemma matchups_append: "matchups (xs @ ys) = matchups xs @ matchups ys"
  by (simp add: matchups_def)

lemma turn_body_matchups:
  "turn_body sc bc s r = (s', b) \<Longrightarrow> matchups (out s') = matchups (out s)"
  by (auto simp: turn_defs matchups_def split: if_splits option.splits agent_role.splits)

text \<open>
  Every call of the loop is begun with the signal not set and is one turn; the loop logs
  no matchup line.
\<close>

lemma match_loop_calls:
  "match_loop e sc bc c s = (err, s', c') \<Longrightarrow>
     no_call_after_signal e c c' \<and> c' + turns s = c + turns s' \<and>
     matchups (out s') = matchups (out s)"
proof (induction e sc bc c s arbitrary: err s' c' rule: match_loop.induct)
  case (1 e sellerConf buyerConf c s)
  show ?case
  proof (cases "turns s < maxTurns \<and> \<not> dealReached s")
    case False
    with "1.prems" show ?thesis
      by (auto simp: loop_exit no_call_after_signal_def split: option.splits)
  next
    case go: True
    show ?thesis
    proof (cases "aborted e c")
      case True
      with go "1.prems" show ?thesis
        by (auto simp: loop_abort no_call_after_signal_def split: option.splits)
    next
      case na: False
      show ?thesis
      proof (cases "gen e c")
        case None
        with go na "1.prems" show ?thesis
          by (auto simp: loop_api_error no_call_after_signal_def aborted_def split: option.splits)
      next
        case (Some response)
        obtain s1 b where tb:
          "turn_body sellerConf buyerConf (s\<lparr>turns := turns s + 1\<rparr>) response = (s1, b)"
          by (cases "turn_body sellerConf buyerConf (s\<lparr>turns := turns s + 1\<rparr>) response")
        from go have lt: "turns s < maxTurns" and nd: "\<not> dealReached s" by auto
        note step = loop_step [OF lt nd na Some tb]
        from turn_body_turns [OF tb] have t1: "turns s1 = turns s + 1" by simp
        from turn_body_matchups [OF tb] have m1: "matchups (out s1) = matchups (out s)" by simp
        have n1: "no_call_after_signal e c (Suc c)"
          using na by (auto simp: no_call_after_signal_def aborted_def split: option.splits)
        show ?thesis
        proof (cases b)
          case True
          with step "1.prems" t1 m1 n1 show ?thesis by auto
        next
          case False
          with step "1.prems"
          have rec: "match_loop e sellerConf buyerConf (Suc c) s1 = (err, s', c')" by simp
          from "1.IH" [OF go na Some tb [symmetric] _ rec] False
          have ih: "no_call_after_signal e (Suc c) c'" "c' + turns s1 = Suc c + turns s'"
            "matchups (out s') = matchups (out s1)" by auto
          from ih(1) na have "no_call_after_signal e c c'"
            by (auto simp: no_call_after_signal_def aborted_def split: option.splits)
          with ih t1 m1 show ?thesis by simp
        qed
      qed
    qed
  qed
qed

lemma turn_body_out: "turn_body sc bc s r = (s', b) \<Longrightarrow> length (out s) < length (out s')"
  by (auto simp: turn_defs split: if_splits option.splits agent_role.splits)

lemma match_loop_out:
  "match_loop e sc bc c s = (err, s', c') \<Longrightarrow> length (out s) \<le> length (out s')"
proof (induction e sc bc c s arbitrary: err s' c' rule: match_loop.induct)
  case (1 e sellerConf buyerConf c s)
  show ?case
  proof (cases "turns s < maxTurns \<and> \<not> dealReached s")
    case False
    with "1.prems" show ?thesis by (simp add: loop_exit)
  next
    case go: True
    show ?thesis
    proof (cases "aborted e c")
      case True
      with go "1.prems" show ?thesis by (simp add: loop_abort)
    next
      case na: False
      show ?thesis
      proof (cases "gen e c")
        case None
        with go na "1.prems" show ?thesis by (auto simp: loop_api_error)
      next
        case (Some response)
        obtain s1 b where tb:
          "turn_body sellerConf buyerConf (s\<lparr>turns := turns s + 1\<rparr>) response = (s1, b)"
          by (cases "turn_body sellerConf buyerConf (s\<lparr>turns := turns s + 1\<rparr>) response")
        from go have lt: "turns s < maxTurns" and nd: "\<not> dealReached s" by auto
        note step = loop_step [OF lt nd na Some tb]
        from turn_body_out [OF tb] have o: "length (out s) < length (out s1)" by simp
        show ?thesis
        proof (cases b)
          case True
          with step "1.prems" o show ?thesis by simp
        next
          case False
          with step "1.prems"
          have rec: "match_loop e sellerConf buyerConf (Suc c) s1 = (err, s', c')" by simp
          from "1.IH" [OF go na Some tb [symmetric] _ rec] False o
          show ?thesis by simp
        qed
      qed
    qed
  qed
qed

lemma turn_body_logs:
  assumes "logs_ok s" "\<not> dealReached s"
    and "turn_body sc bc (s\<lparr>turns := turns s + 1\<rparr>) r = (s', brk)"
  shows "if brk then logs s' = logs s \<and> turns s' = turns s + 1 \<and> \<not> dealReached s' \<and>
                     last (out s') = LEndedTwoNulls
         else logs_ok s'"
  using assms
  by (auto simp: turn_defs logs_ok_def falsy_deal_def
      split: if_splits option.splits agent_role.splits)

lemma match_loop_logs:
  "logs_ok s \<Longrightarrow> match_loop e sc bc c s = (None, s', c') \<Longrightarrow> logs_final s'"
proof (induction e sc bc c s arbitrary: s' c' rule: match_loop.induct)
  case (1 e sellerConf buyerConf c s)
  show ?case
  proof (cases "turns s < maxTurns \<and> \<not> dealReached s")
    case False
    with "1.prems" have "s' = s" by (simp add: loop_exit)
    with "1.prems"(1) show ?thesis by (simp add: logs_ok_def logs_final_def)
  next
    case go: True
    show ?thesis
    proof (cases "aborted e c")
      case True
      with go "1.prems" show ?thesis by (simp add: loop_abort)
    next
      case na: False
      show ?thesis
      proof (cases "gen e c")
        case None
        with go na "1.prems" show ?thesis by (simp add: loop_api_error)
      next
        case (Some response)
        obtain s1 b where tb:
          "turn_body sellerConf buyerConf (s\<lparr>turns := turns s + 1\<rparr>) response = (s1, b)"
          by (cases "turn_body sellerConf buyerConf (s\<lparr>turns := turns s + 1\<rparr>) response")
        from go have lt: "turns s < maxTurns" and nd: "\<not> dealReached s" by auto
        note step = loop_step [OF lt nd na Some tb]
        note tl = turn_body_logs [OF "1.prems"(1) nd tb]
        show ?thesis
        proof (cases b)
          case True
          with step "1.prems"(2) have "s' = s1" by simp
          with tl True "1.prems"(1) nd show ?thesis
            by (auto simp: logs_ok_def logs_final_def)
        next
          case False
          with step "1.prems"(2)
          have rec: "match_loop e sellerConf buyerConf (Suc c) s1 = (None, s', c')" by simp
          from tl False have ok: "logs_ok s1" by simp
          from "1.IH" [OF go na Some tb [symmetric] _ ok rec] False
          show ?thesis by simp
        qed
      qed
    qed
  qed
qed

section \<open>Facts about a match and about the scheduler\<close>

text \<open>What a completed match records, read off \<open>runMatch\<close>.\<close>

lemma runMatch_result:
  assumes "runMatch e runId bc sc tid k w = (Inr r, w')"
  shows "\<exists>s c. match_loop e sc bc (clock w) (init_state (logged w @
             [LStartMatch runId, LMatchup (name bc) (name sc),
              LItem (item (draw e k)) (trueValue (draw e k)),
              LEstimates (sellerEst (draw e k)) (buyerEst (draw e k))])) = (None, s, c) \<and>
           res_dealReached r = dealReached s \<and> res_dealPrice r = dealPrice s \<and>
           res_turns r = turns s \<and> res_logs r = logs s \<and> res_id r = runId \<and>
           score (res_seller r) = fst (scoring s (draw e k)) \<and>
           score (res_buyer r) = fst (snd (scoring s (draw e k))) \<and>
           estimate (res_seller r) = sellerEst (draw e k) \<and>
           estimate (res_buyer r) = buyerEst (draw e k) \<and>
           disk w' = persist r (disk w) \<and>
           logged w' = out s @ [snd (snd (scoring s (draw e k)))]"
  using assms
  by (auto simp: runMatch_def Let_def split: if_splits prod.splits option.splits)

text \<open>The log of every completed match is as \<open>logs_final\<close> says.\<close>

lemma runMatch_logs:
  assumes "runMatch e runId bc sc tid k w = (Inr r, w')"
  shows "list_all falsy_deal (butlast (res_logs r)) \<and>
         (res_dealReached r \<or> list_all falsy_deal (res_logs r)) \<and>
         (map turn (res_logs r) = [1..<Suc (res_turns r)] \<or>
          map turn (res_logs r) = [1..<res_turns r] \<and> \<not> res_dealReached r \<and>
          LEndedTwoNulls \<in> set (logged w'))"
proof -
  let ?lg = "logged w @ [LStartMatch runId, LMatchup (name bc) (name sc),
              LItem (item (draw e k)) (trueValue (draw e k)),
              LEstimates (sellerEst (draw e k)) (buyerEst (draw e k))]"
  from runMatch_result [OF assms] obtain s c where
    m: "match_loop e sc bc (clock w) (init_state ?lg) = (None, s, c)"
    and r: "res_dealReached r = dealReached s" "res_turns r = turns s" "res_logs r = logs s"
    and l: "logged w' = out s @ [snd (snd (scoring s (draw e k)))]"
    by blast
  have "logs_ok (init_state ?lg)" by (simp add: logs_ok_def init_state_def)
  from match_loop_logs [OF this m] have f: "logs_final s" .
  show ?thesis
  proof (cases "map turn (logs s) = [1..<Suc (turns s)]")
    case True
    with f r show ?thesis by (simp add: logs_final_def)
  next
    case False
    with f have la: "last (out s) = LEndedTwoNulls" and nd: "\<not> dealReached s"
      and mt: "map turn (logs s) = [1..<turns s]"
      and fl: "list_all falsy_deal (butlast (logs s))" "list_all falsy_deal (logs s)"
      unfolding logs_final_def by auto
    have "out s \<noteq> []"
      using match_loop_out [OF m] by (auto simp: init_state_def)
    with la have "LEndedTwoNulls \<in> set (out s)" by (metis last_in_set)
    then have "LEndedTwoNulls \<in> set (logged w')" unfolding l by simp
    with nd mt fl show ?thesis unfolding r by blast
  qed
qed

text \<open>A deal at a price other than 0 is scored by the two formulas.\<close>

lemma deal_scores_formula:
  assumes "runMatch e runId bc sc tid k w = (Inr r, w')"
    and "res_dealReached r" and "res_dealPrice r = ONum p" and "p \<noteq> 0"
  shows "score (res_seller r) = (p - estimate (res_seller r)) / estimate (res_seller r) \<and>
         score (res_buyer r) = (estimate (res_buyer r) - p) / estimate (res_buyer r)"
proof -
  from runMatch_result [OF assms(1)] obtain s where
    d: "res_dealReached r = dealReached s" "res_dealPrice r = dealPrice s"
    and sc: "score (res_seller r) = fst (scoring s (draw e k))"
      "score (res_buyer r) = fst (snd (scoring s (draw e k)))"
    and es: "estimate (res_seller r) = sellerEst (draw e k)"
      "estimate (res_buyer r) = buyerEst (draw e k)"
    by blast
  from d assms(2,3) have "dealReached s" "dealPrice s = ONum p" by simp_all
  with assms(4) sc es show ?thesis by (simp add: scoring_def)
qed

lemma runMatch_facts:
  assumes "runMatch e runId bc sc tid k w = (res, w')"
  shows "clock w \<le> clock w'"
    and "trace w' = trace w"
    and "disk w' = (case res of Inr r \<Rightarrow> persist r (disk w) | Inl err \<Rightarrow> disk w)"
    and "res = Inl BenchmarkAborted \<Longrightarrow> aborted e (clock w')"
  using assms
  by (auto simp: runMatch_def Let_def split: if_splits prod.splits option.splits
      dest: match_loop_facts)

text \<open>
  What a match does to the clock and to the logger, and what its result says of its
  parties and its turns.
\<close>

lemma runMatch_calls:
  assumes "runMatch e runId bc sc tid k w = (res, w')"
  shows "no_call_after_signal e (clock w) (clock w') \<and>
         matchups (logged w') = matchups (logged w) @ [(name sc, name bc)] \<and>
         (case res of
            Inr r \<Rightarrow> party_name (res_seller r) = name sc \<and> party_name (res_buyer r) = name bc \<and>
                     res_id r = runId \<and> clock w' = clock w + res_turns r
          | Inl err \<Rightarrow> True)"
proof -
  let ?lg = "logged w @ [LStartMatch runId, LMatchup (name bc) (name sc),
              LItem (item (draw e k)) (trueValue (draw e k)),
              LEstimates (sellerEst (draw e k)) (buyerEst (draw e k))]"
  have m0: "matchups ?lg = matchups (logged w) @ [(name sc, name bc)]"
    by (simp add: matchups_def)
  show ?thesis
  proof (cases "aborted e (clock w)")
    case True
    with assms have r: "res = Inl BenchmarkAborted" "w' = w\<lparr>logged := ?lg\<rparr>"
      by (auto simp: runMatch_def Let_def)
    have "no_call_after_signal e (clock w) (clock w')"
      unfolding r by (simp add: no_call_after_signal_def split: option.splits)
    moreover have "matchups (logged w') = matchups (logged w) @ [(name sc, name bc)]"
      unfolding r using m0 by simp
    ultimately show ?thesis unfolding r(1) by simp
  next
    case False
    obtain err s c where ml: "match_loop e sc bc (clock w) (init_state ?lg) = (err, s, c)"
      by (cases "match_loop e sc bc (clock w) (init_state ?lg)")
    from match_loop_calls [OF ml]
    have f: "no_call_after_signal e (clock w) c" "c = clock w + turns s"
      "matchups (out s) = matchups ?lg"
      by (auto simp: init_state_def)
    show ?thesis
    proof (cases err)
      case (Some x)
      with assms False ml have r: "res = Inl x" "w' = w\<lparr>clock := c, logged := out s\<rparr>"
        by (auto simp: runMatch_def Let_def)
      show ?thesis unfolding r using f m0 by simp
    next
      case None
      obtain a b line where sc: "scoring s (draw e k) = (a, b, line)"
        by (cases "scoring s (draw e k)")
      then have ln: "matchups [line] = []"
        by (auto simp: scoring_def matchups_def split: if_splits)
      from assms False ml None sc obtain r where r: "res = Inr r"
        "party_name (res_seller r) = name sc" "party_name (res_buyer r) = name bc"
        "res_id r = runId" "res_turns r = turns s"
        "clock w' = c" "logged w' = out s @ [line]"
        by (auto simp: runMatch_def Let_def)
      have "matchups (logged w') = matchups (out s)"
        unfolding r(7) matchups_append ln by simp
      with r f m0 show ?thesis by simp
    qed
  qed
qed

text \<open>A match that stands at the head of its loop with the signal set and a turn to take.\<close>

lemma abort_in_flight:
  assumes "in_flight e runId bc sc k w c s" and "aborted e c"
    and "turns s < maxTurns" and "\<not> dealReached s"
  shows "runMatch e runId bc sc tid k w = (Inl BenchmarkAborted, w\<lparr>clock := c, logged := out s\<rparr>)"
proof -
  from assms(3,4) assms(2)
  have "match_loop e sc bc c s = (Some BenchmarkAborted, s, c)" by (simp add: loop_abort)
  with assms(1) show ?thesis
    by (simp add: in_flight_def start_lines_def runMatch_def Let_def)
qed

lemma run_scheduled_facts:
  assumes "run_scheduled e mm tid suf b s w = (res, w')"
  shows "trace w' = trace w @ [\<lparr>sch_seller = s, sch_buyer = b, sch_at = clock w, sch_outcome = res\<rparr>]"
    and "clock w \<le> clock w'"
    and "disk w' = (case res of Inr r \<Rightarrow> persist r (disk w) | Inl err \<Rightarrow> disk w)"
    and "res = Inl BenchmarkAborted \<Longrightarrow> aborted e (clock w')"
    and "no_call_after_signal e (clock w) (clock w')"
    and "matchups (logged w') = matchups (logged w) @ [(s, b)]"
    and "case res of
           Inr r \<Rightarrow> party_name (res_seller r) = s \<and> party_name (res_buyer r) = b \<and>
                    clock w' = clock w + res_turns r
         | Inl err \<Rightarrow> True"
proof -
  let ?k = "length (trace w)"
  let ?bc = "\<lparr>name = b, modelId = the (map_of mm b)\<rparr>"
  let ?sc = "\<lparr>name = s, modelId = the (map_of mm s)\<rparr>"
  obtain w0 where rm: "runMatch e (now e ?k @ suf) ?bc ?sc (Some tid) ?k w = (res, w0)"
    and w': "w' = w0\<lparr>trace := trace w0 @ [\<lparr>sch_seller = s, sch_buyer = b, sch_at = clock w,
                                            sch_outcome = res\<rparr>]\<rparr>"
    using assms by (auto simp: run_scheduled_def Let_def split: prod.splits)
  note f = runMatch_facts [OF rm]
  from runMatch_calls [OF rm] have g: "no_call_after_signal e (clock w) (clock w0)"
    "matchups (logged w0) = matchups (logged w) @ [(s, b)]"
    "case res of
       Inr r \<Rightarrow> party_name (res_seller r) = s \<and> party_name (res_buyer r) = b \<and>
                clock w0 = clock w + res_turns r
     | Inl err \<Rightarrow> True"
    by (simp_all split: sum.splits)
  show "trace w' = trace w @ [\<lparr>sch_seller = s, sch_buyer = b, sch_at = clock w, sch_outcome = res\<rparr>]"
    using f(2) w' by simp
  show "clock w \<le> clock w'" using f(1) w' by simp
  show "disk w' = (case res of Inr r \<Rightarrow> persist r (disk w) | Inl err \<Rightarrow> disk w)"
    using f(3) w' by simp
  show "res = Inl BenchmarkAborted \<Longrightarrow> aborted e (clock w')" using f(4) w' by simp
  show "no_call_after_signal e (clock w) (clock w')" using g(1) w' by simp
  show "matchups (logged w') = matchups (logged w) @ [(s, b)]" using g(2) w' by simp
  show "case res of
           Inr r \<Rightarrow> party_name (res_seller r) = s \<and> party_name (res_buyer r) = b \<and>
                    clock w' = clock w + res_turns r
         | Inl err \<Rightarrow> True"
    using g(3) w' by (cases res) simp_all
qed

lemma completed_append: "completed (xs @ ys) = completed xs @ completed ys"
  by (simp add: completed_def)


lemma files_foldl:
  "i \<notin> set (map res_id rs) \<Longrightarrow> files (foldl (\<lambda>d r. persist r d) d rs) i = files d i"
  by (induction rs arbitrary: d) (simp_all add: persist_def)


lemma no_call_trans:
  "no_call_after_signal e c c1 \<Longrightarrow> no_call_after_signal e c1 c2 \<Longrightarrow> c \<le> c1 \<Longrightarrow>
   no_call_after_signal e c c2"
  by (auto simp: no_call_after_signal_def split: option.splits)

lemma good_refl: "good e w w None"
  unfolding good_def seg_def fin_def
  by (rule exI [of _ "[]"])
     (simp add: completed_def names_def no_call_after_signal_def split: option.splits)

lemma good_trans:
  assumes "good e w w1 None" "good e w1 w2 err"
  shows "good e w w2 err"
proof -
  from assms(1) obtain n1 where a: "seg e w w1 n1" "fin e None w1 n1" by (auto simp: good_def)
  from assms(2) obtain n2 where b: "seg e w1 w2 n2" "fin e err w2 n2" by (auto simp: good_def)
  have c: "clock w \<le> clock w1" using a(1) by (simp add: seg_def)
  have "list_all (\<lambda>x. \<not> aborted e (sch_at x) \<and> clock w \<le> sch_at x \<and> played x \<and> timely e x) n2"
    using b(1) c by (auto simp: seg_def list_all_iff)
  moreover have "no_call_after_signal e (clock w) (clock w2)"
    using a(1) b(1) c by (auto simp: seg_def intro: no_call_trans)
  ultimately have "seg e w w2 (n1 @ n2)"
    using a(1) b(1) by (auto simp: seg_def completed_append names_def)
  moreover have "fin e err w2 (n1 @ n2)"
    using a(2) b(2) by (cases err) (auto simp: fin_def butlast_append)
  ultimately show ?thesis by (auto simp: good_def)
qed

lemma sched_good:
  assumes "\<not> aborted e (clock w)" "run_scheduled e mm tid suf b s w = (res, w1)"
  shows "good e w w1 (if res = Inl BenchmarkAborted then Some BenchmarkAborted else None)"
proof -
  note f = run_scheduled_facts [OF assms(2)]
  let ?x = "\<lparr>sch_seller = s, sch_buyer = b, sch_at = clock w, sch_outcome = res\<rparr>"
  have "played ?x \<and> timely e ?x"
    using f(5,7) by (cases res) (auto simp: played_def timely_def)
  then have "seg e w w1 [?x]"
    using f(1,2,3,5,6) assms(1) by (cases res) (auto simp: seg_def completed_def names_def)
  moreover have "fin e (if res = Inl BenchmarkAborted then Some BenchmarkAborted else None) w1 [?x]"
    using f(4) by (auto simp: fin_def)
  ultimately show ?thesis unfolding good_def by blast
qed

lemma pair_loop_stop:
  "\<not> j < length ks \<or> aborted e (clock w) \<Longrightarrow> pair_loop e mm tid ks i j w = (None, w)"
  by (subst pair_loop.simps) auto

lemma pair_loop_go:
  assumes "j < length ks" "\<not> aborted e (clock w)"
    and "run_scheduled e mm tid ''_1'' (ks ! j) (ks ! i) w = (r1, w1)"
  shows "pair_loop e mm tid ks i j w =
     (if r1 = Inl BenchmarkAborted then (Some BenchmarkAborted, w1)
      else if aborted e (clock w1) then (None, w1)
      else (case run_scheduled e mm tid ''_2'' (ks ! i) (ks ! j) w1 of
              (r2, w2) \<Rightarrow> if r2 = Inl BenchmarkAborted then (Some BenchmarkAborted, w2)
                          else pair_loop e mm tid ks i (Suc j) w2))"
  using assms
  by (subst pair_loop.simps) (auto simp: Let_def split: sum.splits match_error.splits prod.splits)

lemma pair_loop_good:
  "pair_loop e mm tid ks i j w = (err, w') \<Longrightarrow> good e w w' err"
proof (induction "length ks - j" arbitrary: j w)
  case 0
  then show ?case by (simp add: pair_loop_stop good_refl)
next
  case (Suc n)
  then have lt: "j < length ks" by simp
  show ?case
  proof (cases "aborted e (clock w)")
    case True
    with Suc.prems show ?thesis by (simp add: pair_loop_stop good_refl)
  next
    case na: False
    obtain r1 w1 where s1: "run_scheduled e mm tid ''_1'' (ks ! j) (ks ! i) w = (r1, w1)"
      by (cases "run_scheduled e mm tid ''_1'' (ks ! j) (ks ! i) w")
    obtain r2 w2 where s2: "run_scheduled e mm tid ''_2'' (ks ! i) (ks ! j) w1 = (r2, w2)"
      by (cases "run_scheduled e mm tid ''_2'' (ks ! i) (ks ! j) w1")
    note g1 = sched_good [OF na s1]
    note eq = Suc.prems [unfolded pair_loop_go [OF lt na s1] s2 prod.case]
    show ?thesis
    proof (cases "r1 = Inl BenchmarkAborted")
      case True
      with eq g1 show ?thesis by simp
    next
      case r1ok: False
      with g1 have g1': "good e w w1 None" by simp
      show ?thesis
      proof (cases "aborted e (clock w1)")
        case True
        with eq r1ok g1' show ?thesis by simp
      next
        case na1: False
        note g2 = sched_good [OF na1 s2]
        show ?thesis
        proof (cases "r2 = Inl BenchmarkAborted")
          case True
          with eq r1ok na1 g2 g1' show ?thesis by (auto intro: good_trans)
        next
          case r2ok: False
          with eq r1ok na1 have rec: "pair_loop e mm tid ks i (Suc j) w2 = (err, w')" by simp
          have "n = length ks - Suc j" using Suc.hyps(2) by simp
          from Suc.hyps(1) [OF this rec] have "good e w2 w' err" .
          moreover from g2 r2ok have "good e w1 w2 None" by simp
          ultimately show ?thesis using g1' by (blast intro: good_trans)
        qed
      qed
    qed
  qed
qed

lemma row_loop_good:
  "row_loop e mm tid ks i w = (err, w') \<Longrightarrow> good e w w' err"
proof (induction "length ks - i" arbitrary: i w)
  case 0
  then show ?case by (subst (asm) row_loop.simps) (simp add: good_refl)
next
  case (Suc n)
  then have lt: "i < length ks" by simp
  obtain e1 w1 where p: "pair_loop e mm tid ks i (Suc i) w = (e1, w1)"
    by (cases "pair_loop e mm tid ks i (Suc i) w")
  note g1 = pair_loop_good [OF p]
  show ?case
  proof (cases e1)
    case (Some x)
    with Suc.prems lt p have "err = e1" "w' = w1" by (subst (asm) row_loop.simps, simp)+
    with g1 show ?thesis by simp
  next
    case None
    with Suc.prems lt p have rec: "row_loop e mm tid ks (Suc i) w1 = (err, w')"
      by (subst (asm) row_loop.simps) simp
    have "n = length ks - Suc i" using Suc.hyps(2) by simp
    from Suc.hyps(1) [OF this rec] g1 None show ?thesis by (auto intro: good_trans)
  qed
qed

lemma round_loop_good:
  "round_loop e mm tid ks n r w = (err, w') \<Longrightarrow> good e w w' err"
proof (induction "n - r" arbitrary: r w)
  case 0
  then show ?case by (subst (asm) round_loop.simps) (simp add: good_refl)
next
  case (Suc m)
  then have lt: "r < n" by simp
  show ?case
  proof (cases "aborted e (clock w)")
    case True
    with Suc.prems lt show ?thesis by (subst (asm) round_loop.simps) (simp add: good_refl)
  next
    case na: False
    let ?w0 = "w\<lparr>logged := logged w @ [LRound (r + 1)]\<rparr>"
    obtain e1 w1 where p: "row_loop e mm tid ks 0 ?w0 = (e1, w1)"
      by (cases "row_loop e mm tid ks 0 ?w0")
    have g1: "good e w w1 e1"
      using row_loop_good [OF p] by (auto simp: good_def seg_def matchups_def)
    show ?thesis
    proof (cases e1)
      case (Some x)
      with Suc.prems lt na p have "err = e1" "w' = w1" by (subst (asm) round_loop.simps, simp)+
      with g1 show ?thesis by simp
    next
      case None
      with Suc.prems lt na p have rec: "round_loop e mm tid ks n (Suc r) w1 = (err, w')"
        by (subst (asm) round_loop.simps) simp
      have "m = n - Suc r" using Suc.hyps(2) by simp
      from Suc.hyps(1) [OF this rec] g1 None show ?thesis by (auto intro: good_trans)
    qed
  qed
qed

lemma runTournament_good:
  assumes "runTournament e rn opts w = (res, w')"
  shows "good e w w' (case res of Inl err \<Rightarrow> Some err | Inr u \<Rightarrow> None)"
proof -
  let ?n = "if rounds opts = 0 then 1 else rounds opts"
  let ?mm = "build_modelMap (case models opts of None \<Rightarrow> defaultModels | Some ms \<Rightarrow> ms)"
  let ?tid = "if tournamentName opts = [] then rn else tournamentName opts"
  let ?w0 = "w\<lparr>logged := logged w @ [LTournamentStart ?tid ?n (Object_keys ?mm)]\<rparr>"
  obtain e1 w1 where p: "round_loop e ?mm ?tid (Object_keys ?mm) ?n 0 ?w0 = (e1, w1)"
    by (cases "round_loop e ?mm ?tid (Object_keys ?mm) ?n 0 ?w0")
  have g: "good e w w1 e1"
    using round_loop_good [OF p] by (auto simp: good_def seg_def matchups_def)
  show ?thesis
  proof (cases e1)
    case None
    with assms p have "res = Inr ()" "w' = w1\<lparr>logged := logged w1 @ [LTournamentComplete]\<rparr>"
      by (auto simp: runTournament_def Let_def)
    with g None show ?thesis by (auto simp: good_def seg_def fin_def matchups_def)
  next
    case (Some x)
    with assms p have "res = Inl x" "w' = w1"
      by (auto simp: runTournament_def Let_def)
    with g Some show ?thesis by simp
  qed
qed

text \<open>When the signal is already set, a stretch starts no match.\<close>

lemma seg_aborted_empty:
  assumes "seg e w w' new" "aborted e (clock w)"
  shows "new = []"
proof (cases new)
  case Nil
  then show ?thesis .
next
  case (Cons x xs)
  with assms(1) have "\<not> aborted e (sch_at x)" "clock w \<le> sch_at x" by (auto simp: seg_def)
  with assms(2) show ?thesis by (auto dest: aborted_mono)
qed

section \<open>Facts about the schedule without cancellation\<close>

lemma sched_names:
  assumes "abortAt e = None" "run_scheduled e mm tid suf b s w = (res, w1)"
  shows "res \<noteq> Inl BenchmarkAborted" and "names (trace w1) = names (trace w) @ [(s, b)]"
  using run_scheduled_facts [OF assms(2)] never_aborted [OF assms(1)]
  by (auto simp: names_def)

lemma pair_loop_schedule:
  assumes "abortAt e = None"
  shows "pair_loop e mm tid ks i j w = (err, w') \<Longrightarrow>
    err = None \<and> names (trace w') = names (trace w) @ concat (map (pair_matches ks i) [j..<length ks])"
proof (induction "length ks - j" arbitrary: j w)
  case 0
  then show ?case by (simp add: pair_loop_stop)
next
  case (Suc n)
  then have lt: "j < length ks" by simp
  note na = never_aborted [OF assms]
  obtain r1 w1 where s1: "run_scheduled e mm tid ''_1'' (ks ! j) (ks ! i) w = (r1, w1)"
    by (cases "run_scheduled e mm tid ''_1'' (ks ! j) (ks ! i) w")
  obtain r2 w2 where s2: "run_scheduled e mm tid ''_2'' (ks ! i) (ks ! j) w1 = (r2, w2)"
    by (cases "run_scheduled e mm tid ''_2'' (ks ! i) (ks ! j) w1")
  note n1 = sched_names [OF assms s1]
  note n2 = sched_names [OF assms s2]
  from Suc.prems [unfolded pair_loop_go [OF lt na s1] s2 prod.case] n1(1) n2(1) na
  have rec: "pair_loop e mm tid ks i (Suc j) w2 = (err, w')" by simp
  have "n = length ks - Suc j" using Suc.hyps(2) by simp
  from Suc.hyps(1) [OF this rec] n1(2) n2(2) lt
  show ?case by (simp add: upt_conv_Cons pair_matches_def)
qed

lemma row_loop_schedule:
  assumes "abortAt e = None"
  shows "row_loop e mm tid ks i w = (err, w') \<Longrightarrow>
    err = None \<and> names (trace w') = names (trace w) @
      concat (map (\<lambda>i. concat (map (pair_matches ks i) [Suc i..<length ks])) [i..<length ks])"
proof (induction "length ks - i" arbitrary: i w)
  case 0
  then show ?case by (subst (asm) row_loop.simps) simp
next
  case (Suc n)
  then have lt: "i < length ks" by simp
  obtain e1 w1 where p: "pair_loop e mm tid ks i (Suc i) w = (e1, w1)"
    by (cases "pair_loop e mm tid ks i (Suc i) w")
  note g1 = pair_loop_schedule [OF assms p]
  with Suc.prems lt p have rec: "row_loop e mm tid ks (Suc i) w1 = (err, w')"
    by (subst (asm) row_loop.simps) simp
  have "n = length ks - Suc i" using Suc.hyps(2) by simp
  from Suc.hyps(1) [OF this rec] g1 lt show ?case by (simp add: upt_conv_Cons)
qed

lemma round_loop_schedule:
  assumes "abortAt e = None"
  shows "round_loop e mm tid ks n r w = (err, w') \<Longrightarrow>
    err = None \<and> names (trace w') = names (trace w) @ concat (replicate (n - r) (round_schedule ks))"
proof (induction "n - r" arbitrary: r w)
  case 0
  then show ?case by (subst (asm) round_loop.simps) simp
next
  case (Suc m)
  then have lt: "r < n" by simp
  note na = never_aborted [OF assms]
  let ?w0 = "w\<lparr>logged := logged w @ [LRound (r + 1)]\<rparr>"
  obtain e1 w1 where p: "row_loop e mm tid ks 0 ?w0 = (e1, w1)"
    by (cases "row_loop e mm tid ks 0 ?w0")
  note g1 = row_loop_schedule [OF assms p]
  with Suc.prems lt na p have rec: "round_loop e mm tid ks n (Suc r) w1 = (err, w')"
    by (subst (asm) round_loop.simps) simp
  have m: "m = n - Suc r" using Suc.hyps(2) by simp
  have "n - r = Suc (n - Suc r)" using lt by simp
  with Suc.hyps(1) [OF m rec] g1 show ?case by (simp add: round_schedule_def names_def)
qed

lemma length_pairs_from:
  "length (concat (map (pair_matches ks i) [Suc i..<n])) = 2 * (n - Suc i)"
  by (induction n) (auto simp: pair_matches_def)

lemma sum_twice_below: "(\<Sum>i<n. 2 * i) = n * (n - 1)" for n :: nat
  by (induction n) (auto simp: algebra_simps)

lemma length_round_schedule: "length (round_schedule ks) = length ks * (length ks - 1)"
proof -
  let ?n = "length ks"
  have "length (round_schedule ks) =
          sum_list (map (\<lambda>i. length (concat (map (pair_matches ks i) [Suc i..<?n]))) [0..<?n])"
    by (simp only: round_schedule_def length_concat map_map comp_def)
  also have "\<dots> = sum_list (map (\<lambda>i. 2 * (?n - Suc i)) [0..<?n])"
    by (simp only: length_pairs_from)
  also have "\<dots> = (\<Sum>i<?n. 2 * (?n - Suc i))"
    by (simp add: interv_sum_list_conv_sum_set_nat atLeast0LessThan)
  also have "\<dots> = (\<Sum>i<?n. 2 * i)"
    by (rule sum.nat_diff_reindex)
  finally show ?thesis by (simp add: sum_twice_below)
qed

lemma in_concat_map: "y \<in> set xs \<Longrightarrow> x \<in> set (f y) \<Longrightarrow> x \<in> set (concat (map f xs))"
  by auto

lemma in_round_schedule:
  assumes "i < j" "j < length ks" "x \<in> set (pair_matches ks i j)"
  shows "x \<in> set (round_schedule ks)"
proof -
  have j: "j \<in> set [Suc i..<length ks]" using assms by simp
  have i: "i \<in> set [0..<length ks]" using assms by simp
  from j assms(3) have "x \<in> set (concat (map (pair_matches ks i) [Suc i..<length ks]))"
    by (rule in_concat_map)
  with i show ?thesis
    unfolding round_schedule_def by (rule in_concat_map)
qed

lemma round_schedule_complete:
  assumes "a \<in> set ks" "b \<in> set ks" "a \<noteq> b"
  shows "(a, b) \<in> set (round_schedule ks)"
proof -
  from assms obtain i j where ij: "i < length ks" "j < length ks" "ks ! i = a" "ks ! j = b"
    by (auto simp: in_set_conv_nth)
  with assms(3) have "i \<noteq> j" by auto
  then consider "i < j" | "j < i" by linarith
  then show ?thesis
  proof cases
    case 1
    have "(a, b) \<in> set (pair_matches ks i j)" using ij by (simp add: pair_matches_def)
    from in_round_schedule [OF 1 ij(2) this] show ?thesis .
  next
    case 2
    have "(a, b) \<in> set (pair_matches ks j i)" using ij by (simp add: pair_matches_def)
    from in_round_schedule [OF 2 ij(1) this] show ?thesis .
  qed
qed

lemma foldl_update_keys:
  "distinct (map fst acc) \<Longrightarrow>
   distinct (map fst (foldl (\<lambda>mp m. if m = p then mp else AList.update m (f m) mp) acc ms)) \<and>
   fst ` set (foldl (\<lambda>mp m. if m = p then mp else AList.update m (f m) mp) acc ms) =
     fst ` set acc \<union> (set ms - {p})"
proof (induction ms arbitrary: acc)
  case Nil
  then show ?case by simp
next
  case (Cons m ms)
  show ?case
  proof (cases "m = p")
    case True
    with Cons.IH [OF Cons.prems] show ?thesis by auto
  next
    case False
    have d: "distinct (map fst (AList.update m (f m) acc))"
      using Cons.prems by (rule distinct_update)
    have k: "fst ` set (AList.update m (f m) acc) = {m} \<union> fst ` set acc"
      by (rule dom_update)
    from Cons.IH [OF d] False show ?thesis unfolding foldl_Cons k by auto
  qed
qed

lemma build_modelMap_keys:
  "distinct (map fst (build_modelMap ms)) \<and>
   set (map fst (build_modelMap ms)) = set ms - {''__proto__''}"
proof -
  have "distinct (map fst ([] :: (string \<times> model_id) list))" by simp
  from foldl_update_keys [OF this, of "''__proto__''" resolve_model ms]
  show ?thesis unfolding build_modelMap_def set_map by simp
qed

text \<open>\<^verbatim>\<open>Object.keys\<close> lists every own key once.\<close>

lemma Object_keys_distinct:
  "distinct (map fst obj) \<Longrightarrow> distinct (Object_keys obj) \<and> set (Object_keys obj) = fst ` set obj"
  by (auto simp: Object_keys_def)

lemma roster_keys_distinct:
  "distinct (roster_keys opts) \<and>
   set (roster_keys opts) =
     set (case models opts of None \<Rightarrow> defaultModels | Some ms \<Rightarrow> ms) - {''__proto__''}"
  using build_modelMap_keys
    [of "case models opts of None \<Rightarrow> defaultModels | Some ms \<Rightarrow> ms"]
    Object_keys_distinct
    [of "build_modelMap (case models opts of None \<Rightarrow> defaultModels | Some ms \<Rightarrow> ms)"]
  by (simp add: roster_keys_def)

section \<open>Facts about the span handed to the parser\<close>

lemma dropWhile_upto:
  "c \<notin> set xs \<Longrightarrow> dropWhile (\<lambda>x. x \<noteq> c) (xs @ c # ys) = c # ys"
  by (induction xs) auto

lemma jsonMatch_span:
  assumes "CHR ''{'' \<notin> set a" "CHR ''}'' \<notin> set c"
  shows "jsonMatch (a @ CHR ''{'' # b @ CHR ''}'' # c) = Some (CHR ''{'' # b @ [CHR ''}''])"
proof -
  have 1: "dropWhile (\<lambda>x. x \<noteq> CHR ''{'') (a @ CHR ''{'' # b @ CHR ''}'' # c) = CHR ''{'' # b @ CHR ''}'' # c"
    using assms(1) by (rule dropWhile_upto)
  have "CHR ''}'' \<notin> set (rev c)" using assms(2) by simp
  then have "dropWhile (\<lambda>x. x \<noteq> CHR ''}'') (rev c @ CHR ''}'' # rev b @ [CHR ''{'']) = CHR ''}'' # rev b @ [CHR ''{'']"
    by (rule dropWhile_upto)
  then have 2: "rev (dropWhile (\<lambda>x. x \<noteq> CHR ''}'') (rev (CHR ''{'' # b @ CHR ''}'' # c))) = CHR ''{'' # b @ [CHR ''}'']"
    by simp
  show ?thesis unfolding jsonMatch_def 1 Let_def 2 by simp
qed


section \<open>Facts about the standalone runner\<close>

lemma cli_turn_body_logs:
  "map turn (logs s) = [1..<turns s] \<Longrightarrow> 0 < turns s \<Longrightarrow>
   map turn (logs (cli_turn_body s r)) = [1..<Suc (turns s)]"
  by (auto simp: cli_turn_body_def Let_def split: prod.splits)

lemma cli_loop_exit:
  "\<not> (turns s < maxTurns \<and> \<not> dealReached s) \<Longrightarrow> cli_loop g c s = (None, s)"
  by (subst cli_loop.simps) auto

lemma cli_loop_step:
  "turns s < maxTurns \<and> \<not> dealReached s \<Longrightarrow>
   cli_loop g c s =
     (case g c of
        None \<Rightarrow> (Some ApiError, s\<lparr>turns := turns s + 1\<rparr>)
      | Some response \<Rightarrow> cli_loop g (Suc c) (cli_turn_body (s\<lparr>turns := turns s + 1\<rparr>) response))"
  by (subst cli_loop.simps) simp

lemma cli_loop_logs:
  "map turn (logs s) = [1..<Suc (turns s)] \<Longrightarrow> cli_loop g c s = (None, s') \<Longrightarrow>
   map turn (logs s') = [1..<Suc (turns s')]"
proof (induction g c s arbitrary: s' rule: cli_loop.induct)
  case (1 g c s)
  show ?case
  proof (cases "turns s < maxTurns \<and> \<not> dealReached s")
    case False
    with "1.prems" show ?thesis by (simp add: cli_loop_exit)
  next
    case go: True
    show ?thesis
    proof (cases "g c")
      case None
      with go "1.prems" show ?thesis by (simp add: cli_loop_step)
    next
      case (Some response)
      let ?s1 = "cli_turn_body (s\<lparr>turns := turns s + 1\<rparr>) response"
      from go Some "1.prems"(2) have rec: "cli_loop g (Suc c) ?s1 = (None, s')"
        by (simp add: cli_loop_step)
      have "map turn (logs ?s1) = [1..<Suc (turns (s\<lparr>turns := turns s + 1\<rparr>))]"
        using "1.prems"(1) by (intro cli_turn_body_logs) simp_all
      then have ok: "map turn (logs ?s1) = [1..<Suc (turns ?s1)]"
        by (simp add: cli_turn_body_turns)
      from "1.IH" [OF go Some ok rec] show ?thesis .
    qed
  qed
qed

text \<open>The standalone runner logs every turn it takes, the last one included.\<close>

lemma cli_logs_every_turn:
  assumes "cli_runMatch g d = Inr r"
  shows "map turn (cli_logs r) = [1..<Suc (cli_turns r)]"
proof -
  from assms obtain s where l: "cli_loop g 0 (init_state []) = (None, s)"
    and r: "cli_logs r = logs s" "cli_turns r = turns s"
    by (auto simp: cli_runMatch_def Let_def split: prod.splits option.splits)
  have "map turn (logs (init_state [])) = [1..<Suc (turns (init_state []))]"
    by (simp add: init_state_def)
  from cli_loop_logs [OF this l] r show ?thesis by simp
qed

text \<open>
  The standalone runner does not ask who made the pending offer: here the seller's claim
  on its own offer of 50000 is taken for a deal.
\<close>

lemma cli_accepts_own_offer:
  "(case cli_runMatch (gen (script own_offer_accepted None)) rolex of
      Inr r \<Rightarrow> cli_dealReached r \<and> cli_dealPrice r = ONum 50000 \<and> cli_turns r = 3 \<and>
               map role (cli_logs r) = [Seller, Buyer, Seller]
    | Inl err \<Rightarrow> False)"
  by code_simp

section \<open>The deal claim (C1)\<close>

text \<open>
  Claim C1, as the specification has it: a reply with \<^verbatim>\<open>deal:true\<close> ends the match in a
  deal if and only if a pending offer exists, was made by the other role and equals the
  reply's offer; on any violation the engine logs a rejection, sets the reply's flag to
  false, and the match continues rather than terminating.

  The last part fails as stated. In the run below the seller names no price, and the
  buyer then claims a deal, naming no price either: the claim is rejected, and the match
  terminates on that very turn, the second of twelve, through the silence rule.
\<close>

theorem rejected_claim_ends_match:
  "(case runMatch (script claim_into_silence None) ''r'' buyerB sellerA None 0 fresh of
      (Inr r, w') \<Rightarrow>
        LRejectedNoValidOffer \<in> set (logged w') \<and> res_turns r = 2 \<and> res_turns r < maxTurns \<and>
        \<not> res_dealReached r \<and> last (logged w') = LNoDeal
    | (Inl err, w') \<Rightarrow> False)"
  by code_simp

text \<open>
  Claim C1, amended. Take any turn of any match: the loop is entered in state \<open>s\<close>, the
  active agent's reply claims a deal, and \<open>s'\<close> is the state after the body of the loop.
  The claim is honoured if and only if a pending offer exists (the engine's \<open>lastOffer\<close>
  is not \<^verbatim>\<open>null\<close>), was not made by the active role, and equals the reply's offer; then
  the reply's offer is the agreed price and the match ends with this turn. (What the engine
  holds as pending after a reply that has no \<^verbatim>\<open>offer\<close> key is a defect of its own,
  shown with the silence rule below, and no part of this claim.) Otherwise a rejection is logged and the turn
  goes on as a turn without a deal: it ends the match only through the silence rule
  (a null offer following a turn with a null offer); in every other case the flag logged
  for the turn is \<^verbatim>\<open>false\<close> and the match goes on from \<open>s'\<close>, up to the turn cap.
\<close>

theorem deal_claim_validated:
  assumes "turns s < maxTurns" and "\<not> dealReached s" and "\<not> aborted e c"
    and "gen e c = Some response" and "truthy (deal response)"
    and "turn_body sc bc (s\<lparr>turns := turns s + 1\<rparr>) response = (s', brk)"
  shows "dealReached s' = accepted s response \<and>
         (if accepted s response
          then dealPrice s' = offer response \<and> match_loop e sc bc c s = (None, s', Suc c)
          else rejection s response \<in> set (drop (length (out s)) (out s')) \<and>
               brk = (offer response = ONull \<and> 1 \<le> consecutiveNulls s) \<and>
               (if brk then match_loop e sc bc c s = (None, s', Suc c)
                else deal (content (last (logs s'))) = JBool False \<and>
                     match_loop e sc bc c s = match_loop e sc bc (Suc c) s'))"
proof -
  let ?s1 = "s\<lparr>turns := turns s + 1\<rparr>"
  have nd: "\<not> dealReached ?s1" using assms(2) by simp
  have acc: "accepted ?s1 response = accepted s response" by (simp add: accepted_def)
  have rej: "rejection ?s1 response = rejection s response" by (simp add: rejection_def)
  have len: "out ?s1 = out s" by simp
  have cn: "consecutiveNulls ?s1 = consecutiveNulls s" by simp
  note tb = turn_body_claim [OF nd assms(5) assms(6), unfolded acc rej len cn]
  note step = loop_step [OF assms(1,2,3,4,6)]
  show ?thesis
  proof (cases "accepted s response")
    case True
    with tb(1,2) have d: "dealReached s'" and p: "dealPrice s' = offer response" and nb: "\<not> brk"
      by auto
    from step nb have "match_loop e sc bc c s = match_loop e sc bc (Suc c) s'" by simp
    also have "\<dots> = (None, s', Suc c)" using d by (simp add: loop_exit)
    finally show ?thesis using True d p by simp
  next
    case False
    with tb step show ?thesis by (auto simp del: One_nat_def)
  qed
qed

theorem deal_claim_validated_witness:
  "\<not> accepted (init_state []) (say ONull True) \<and>
   \<not> dealReached (fst (turn_body sellerA buyerB ((init_state [])\<lparr>turns := 1\<rparr>) (say ONull True))) \<and>
   LRejectedNoValidOffer \<in>
     set (out (fst (turn_body sellerA buyerB ((init_state [])\<lparr>turns := 1\<rparr>) (say ONull True))))"
proof -
  let ?e = "script [say ONull True] None"
  let ?s = "init_state []"
  let ?t = "turn_body sellerA buyerB (?s\<lparr>turns := turns ?s + 1\<rparr>) (say ONull True)"
  have h1: "turns ?s < maxTurns" by (simp add: init_state_def maxTurns_def)
  have h2: "\<not> dealReached ?s" by (simp add: init_state_def)
  have h3: "\<not> aborted ?e 0" by (simp add: aborted_def script_def)
  have h4: "gen ?e 0 = Some (say ONull True)" by (simp add: script_def)
  have h5: "truthy (deal (say ONull True))" by (simp add: say_def)
  have h6: "?t = (fst ?t, snd ?t)" by simp
  have na: "\<not> accepted ?s (say ONull True)" by (simp add: accepted_def init_state_def)
  have rj: "rejection ?s (say ONull True) = LRejectedNoValidOffer"
    by (simp add: rejection_def init_state_def)
  have t0: "turns ?s + 1 = 1" by (simp add: init_state_def)
  have o0: "length (out ?s) = 0" by (simp add: init_state_def)
  from deal_claim_validated [OF h1 h2 h3 h4 h5 h6] na
  show ?thesis unfolding rj t0 o0 by simp
qed

section \<open>The silence rule (C4)\<close>

text \<open>
  Claim C4: two consecutive turns that carry no offer (absent or null) end the match as
  a no-deal on the second of them, whatever is left of the twelve turns; a turn with a
  non-null offer sets the streak back to zero.

  The engine does not do this for an offer that is absent. Its test for a turn with an
  offer is \<^verbatim>\<open>response.offer !== null\<close> (line 123), under the comment "Process new offer if
  present"; a reply without an \<^verbatim>\<open>offer\<close> key reads as \<^verbatim>\<open>undefined\<close>, which passes the
  test, although the logger prints the same turn as "Offer: None" (line 98). In the run
  below the first two replies have no \<^verbatim>\<open>offer\<close> key: the match should be over on turn 2;
  the engine takes each for an offer, sets the streak to zero, and goes on to turn 4, where
  the second of two null offers ends it.
\<close>

theorem absent_offers_do_not_end_match:
  "(case runMatch (script missing_then_null None) ''r'' buyerB sellerA None 0 fresh of
      (Inr r, w') \<Rightarrow>
        res_turns r = 4 \<and> map (\<lambda>x. offer (content x)) (res_logs r) = [OUndefined, OUndefined, ONull]
    | (Inl err, w') \<Rightarrow> False)"
  by code_simp

text \<open>
  The same test lets an absent offer stand as the pending offer: a deal claim without a
  price that follows a reply without a price is honoured, and the match ends in a deal
  whose price is \<^verbatim>\<open>undefined\<close>.
\<close>

lemma claim_without_price_is_honoured:
  "(case runMatch (script claim_without_price None) ''r'' buyerB sellerA None 0 fresh of
      (Inr r, w') \<Rightarrow> res_turns r = 2 \<and> res_dealReached r \<and> res_dealPrice r = OUndefined
    | (Inl err, w') \<Rightarrow> False)"
  by code_simp

text \<open>
  For offers that are \<^verbatim>\<open>null\<close> the rule is as the specification has it. If the replies of
  two consecutive turns both carry the offer \<^verbatim>\<open>null\<close>, the match is over, without a deal,
  on the second of them at the latest, whatever is left of the twelve turns: on the second
  when the streak was zero before the first, on the first when a null offer had come just
  before.
\<close>

lemma two_null_offers_end_match:
  assumes "\<not> dealReached s" and "turns s + 2 \<le> maxTurns"
    and "\<not> aborted e c" and "gen e c = Some r1" and "offer r1 = ONull"
    and "\<not> aborted e (Suc c)" and "gen e (Suc c) = Some r2" and "offer r2 = ONull"
  shows "(\<exists>s'. \<not> dealReached s' \<and> last (out s') = LEndedTwoNulls \<and>
           (if consecutiveNulls s = 0
            then match_loop e sc bc c s = (None, s', c + 2) \<and> turns s' = turns s + 2
            else match_loop e sc bc c s = (None, s', c + 1) \<and> turns s' = turns s + 1)) \<and>
         (\<forall>r s3 b. offer r \<noteq> ONull \<longrightarrow> turn_body sc bc s r = (s3, b) \<longrightarrow>
            \<not> b \<and> (if dealReached s3 then accepted s r else consecutiveNulls s3 = 0))"
proof -
  let ?s0 = "s\<lparr>turns := turns s + 1\<rparr>"
  obtain s1 b1 where t1: "turn_body sc bc ?s0 r1 = (s1, b1)" by (cases "turn_body sc bc ?s0 r1")
  have lt: "turns s < maxTurns" using assms(2) by simp
  have nd0: "\<not> dealReached ?s0" using assms(1) by simp
  note n1 = turn_body_null [OF nd0 assms(5) t1]
  note step1 = loop_step [OF lt assms(1) assms(3) assms(4) t1]
  have first: "\<exists>s'. \<not> dealReached s' \<and> last (out s') = LEndedTwoNulls \<and>
           (if consecutiveNulls s = 0
            then match_loop e sc bc c s = (None, s', c + 2) \<and> turns s' = turns s + 2
            else match_loop e sc bc c s = (None, s', c + 1) \<and> turns s' = turns s + 1)"
  proof (cases "consecutiveNulls s = 0")
    case False
    with n1 have "b1" by simp
    with step1 n1 False show ?thesis by auto
  next
    case True
    with n1 have nb: "\<not> b1" and c1: "consecutiveNulls s1 = 1" and nd1: "\<not> dealReached s1"
      and tu: "turns s1 = turns s + 1" by auto
    let ?s2 = "s1\<lparr>turns := turns s1 + 1\<rparr>"
    obtain s2 b2 where t2: "turn_body sc bc ?s2 r2 = (s2, b2)" by (cases "turn_body sc bc ?s2 r2")
    have lt1: "turns s1 < maxTurns" using assms(2) tu by simp
    have nd2: "\<not> dealReached ?s2" using nd1 by simp
    note n2 = turn_body_null [OF nd2 assms(8) t2]
    note step2 = loop_step [OF lt1 nd1 assms(6) assms(7) t2]
    from n2 c1 have "b2" by simp
    with step1 nb step2 have "match_loop e sc bc c s = (None, s2, c + 2)" by simp
    with n2 \<open>b2\<close> tu True show ?thesis by auto
  qed
  have second: "\<forall>r s3 b. offer r \<noteq> ONull \<longrightarrow> turn_body sc bc s r = (s3, b) \<longrightarrow>
            \<not> b \<and> (if dealReached s3 then accepted s r else consecutiveNulls s3 = 0)"
    using assms(1)
    by (auto simp: turn_defs accepted_def split: if_splits option.splits agent_role.splits)
  from first second show ?thesis by blast
qed

lemma two_null_offers_end_match_example:
  "fst (match_loop (script two_nulls None) sellerA buyerB 0 (init_state [])) = None \<and>
   turns (fst (snd (match_loop (script two_nulls None) sellerA buyerB 0 (init_state [])))) = 2 \<and>
   \<not> dealReached (fst (snd (match_loop (script two_nulls None) sellerA buyerB 0 (init_state []))))"
proof -
  let ?e = "script two_nulls None"
  let ?s = "init_state []"
  have h1: "\<not> dealReached ?s" by (simp add: init_state_def)
  have h2: "turns ?s + 2 \<le> maxTurns" by (simp add: init_state_def maxTurns_def)
  have h3: "\<not> aborted ?e 0" by (simp add: aborted_def script_def)
  have h4: "gen ?e 0 = Some (say ONull False)" by (simp add: script_def two_nulls_def)
  have h5: "offer (say ONull False) = ONull" by (simp add: say_def)
  have h6: "\<not> aborted ?e (Suc 0)" by (simp add: aborted_def script_def)
  have h7: "gen ?e (Suc 0) = Some (say ONull False)" by (simp add: script_def two_nulls_def)
  have z: "consecutiveNulls ?s = 0" "turns ?s = 0" by (simp_all add: init_state_def)
  from two_null_offers_end_match [OF h1 h2 h3 h4 h5 h6 h7 h5, of sellerA buyerB]
  obtain s' where "\<not> dealReached s'"
    and "match_loop ?e sellerA buyerB 0 ?s = (None, s', 0 + 2)" and "turns s' = turns ?s + 2"
    unfolding z by auto
  then show ?thesis by (simp add: z)
qed


section \<open>Scoring (C2, C3)\<close>

text \<open>
  Claim C2: a match that ends in a deal at price \<open>P\<close> records the seller's score
  \<open>(P - Es) / Es\<close> and the buyer's score \<open>(Eb - P) / Eb\<close>, for every price the engine can
  accept, the price 0 included.

  The engine accepts the price 0 and then does not score it: the test
  \<^verbatim>\<open>dealReached && dealPrice\<close> is false for the number 0. In the run below the seller
  offers 0 and the buyer accepts; the record says that a deal was reached at 0, both
  scores are 0 where the formulas give -1 and 1, and the line logged is the one for a
  match without a deal. (For every other price the formulas hold: \<open>deal_scores_formula\<close>.)
\<close>

theorem deal_at_zero_is_not_scored:
  "(case runMatch (script given_away None) ''r'' buyerB sellerA None 0 fresh of
      (Inr r, w') \<Rightarrow>
        res_dealReached r \<and> res_dealPrice r = ONum 0 \<and>
        score (res_seller r) = 0 \<and> score (res_buyer r) = 0 \<and>
        (0 - estimate (res_seller r)) / estimate (res_seller r) = - 1 \<and>
        (estimate (res_buyer r) - 0) / estimate (res_buyer r) = 1 \<and>
        last (logged w') = LNoDeal
    | (Inl err, w') \<Rightarrow> False)"
  by code_simp

text \<open>
  Claim C3, as the specification has it: every match that ends without a deal, through
  the turn cap or through the silence rule, records the score 0 for both sides.

  This holds for the engine of the server and fails for the standalone runner, which
  starts both scores at -0.5 ("Penalty default") and leaves them there when no deal is
  reached. In the run below its two agents trade offers of 50000 and 30000 for twelve turns.
\<close>

theorem cli_no_deal_is_penalised:
  "(case cli_runMatch stubborn rolex of
      Inr r \<Rightarrow> cli_turns r = 12 \<and> \<not> cli_dealReached r \<and>
               cli_sellerScore r = - (1 / 2) \<and> cli_buyerScore r = - (1 / 2)
    | Inl err \<Rightarrow> False)"
  by code_simp

text \<open>
  Claim C3, amended: every match run by the engine of the server (server/benchmark.js)
  that ends without a deal, through the turn cap or through the silence rule, records
  the score 0 for both sides, in the run file and in the manifest entry written for it.
\<close>

theorem no_deal_scores_zero:
  assumes "runMatch e runId buyerConf sellerConf tid k w = (Inr r, w')"
    and "\<not> res_dealReached r"
  shows "score (res_seller r) = 0 \<and> score (res_buyer r) = 0 \<and>
         files (disk w') runId = Some r \<and>
         manifest (disk w') = manifest_of r # manifest (disk w) \<and>
         score (me_seller (manifest_of r)) = 0 \<and> score (me_buyer (manifest_of r)) = 0"
proof -
  from runMatch_result [OF assms(1)] obtain s where
    d: "res_dealReached r = dealReached s"
    and sc: "score (res_seller r) = fst (scoring s (draw e k))"
      "score (res_buyer r) = fst (snd (scoring s (draw e k)))"
    and i: "res_id r = runId" and p: "disk w' = persist r (disk w)"
    by blast
  from d assms(2) have "\<not> dealReached s" by simp
  with sc have z: "score (res_seller r) = 0" "score (res_buyer r) = 0"
    by (simp_all add: scoring_def)
  from p i have "files (disk w') runId = Some r"
    "manifest (disk w') = manifest_of r # manifest (disk w)"
    by (simp_all add: persist_def)
  with z show ?thesis by (simp add: manifest_of_def summary_def)
qed

theorem no_deal_scores_zero_witness:
  "score (res_seller (projr (fst (runMatch (script two_nulls None) ''r'' buyerB sellerA None 0 fresh)))) = 0 \<and>
   score (res_buyer (projr (fst (runMatch (script two_nulls None) ''r'' buyerB sellerA None 0 fresh)))) = 0"
proof -
  let ?X = "runMatch (script two_nulls None) ''r'' buyerB sellerA None 0 fresh"
  have a: "\<not> isl (fst ?X)" by code_simp
  have b: "\<not> res_dealReached (projr (fst ?X))" by code_simp
  from a have c: "?X = (Inr (projr (fst ?X)), snd ?X)" by (simp add: prod_eq_iff)
  from no_deal_scores_zero [OF c b] show ?thesis by simp
qed

section \<open>The log of a match (C5, C10)\<close>

text \<open>
  Claim C5: every turn taken, the last one included whatever ends the match, is appended
  to the log, so that at the end the log has one entry for each turn from 1 to the
  recorded number of turns.

  The turn that ends the match through the silence rule is not logged: the \<^verbatim>\<open>break\<close> of
  line 131 leaves the loop before the \<^verbatim>\<open>logs.push\<close> of line 136. In the run below both
  agents name no price; the record counts 2 turns and its log holds the first only.
  (\<open>runMatch_logs\<close> says what holds in general: the log is complete unless the silence
  rule ended the match, and then exactly the last turn is missing.)
\<close>

theorem silent_last_turn_is_not_logged:
  "(case runMatch (script two_nulls None) ''r'' buyerB sellerA None 0 fresh of
      (Inr r, w') \<Rightarrow> res_turns r = 2 \<and> map turn (res_logs r) = [1]
    | (Inl err, w') \<Rightarrow> False)"
  by code_simp

text \<open>
  Claim C10: in a persisted result, a log entry has a true deal flag only if it is the
  last entry of a match that reached a deal, and every deal claim that the engine
  rejects appears in the log with the flag false.

  The first half holds (\<open>runMatch_logs\<close>). The second half fails where claim C5 fails, by
  the same \<^verbatim>\<open>break\<close>: a rejected claim made on the turn that ends the match through the
  silence rule does not appear in the log at all. In the run below the seller offers
  50000, the buyer names no price, and the seller then claims a deal, naming no price:
  the claim is rejected, the match ends on this third turn, and the log holds two entries.
\<close>

theorem rejected_claim_missing_from_log:
  "(case runMatch (script own_offer_claimed None) ''r'' buyerB sellerA None 0 fresh of
      (Inr r, w') \<Rightarrow>
        LRejectedNoValidOffer \<in> set (logged w') \<and> res_turns r = 3 \<and>
        map turn (res_logs r) = [1, 2] \<and> \<not> res_dealReached r
    | (Inl err, w') \<Rightarrow> False)"
  by code_simp

section \<open>Cancellation (C6, C7)\<close>

text \<open>
  Claim C6: whenever the abort signal is set, be it seen at a check between matches or
  pairings or set while a match is running, the scheduler starts no further match and
  \<^verbatim>\<open>runTournament\<close> returns without raising an error.

  The last part fails for a match in flight. In the run below the signal is set while the
  first call of the first match is awaited; the match sees it before its second turn and
  throws, and the scheduler throws the same error on to its caller.
\<close>

theorem abort_in_flight_is_rethrown:
  "fst (runTournament (script haggling (Some 1)) ''R'' duel fresh) = Inl BenchmarkAborted"
  by code_simp

text \<open>
  Claim C6, amended. For every tournament: no match is started once the signal is set, and
  no call of \<^verbatim>\<open>generateResponse\<close> is begun once it is set, so that the tournament is over
  as soon as the call that was awaited when the signal was set has come back.
  \<^verbatim>\<open>runTournament\<close> comes back normally unless the match in flight saw the signal before
  one of its turns and threw: then that match is the last one started, and its error, the
  only one that leaves the tournament, is thrown on to the caller. A match in flight that
  stands before a turn when the signal is set does throw, having made no further call. If
  the signal is already set when the tournament starts, it starts no match and returns
  normally.
\<close>

theorem cancellation_stops_scheduling:
  assumes "runTournament e rn opts w = (res, w')"
  shows "(\<exists>new. trace w' = trace w @ new \<and>
           list_all (\<lambda>x. \<not> aborted e (sch_at x)) new \<and>
           (case res of
              Inr u \<Rightarrow> list_all (\<lambda>x. sch_outcome x \<noteq> Inl BenchmarkAborted) new
            | Inl err \<Rightarrow> err = BenchmarkAborted \<and> aborted e (clock w') \<and> new \<noteq> [] \<and>
                         sch_outcome (last new) = Inl BenchmarkAborted) \<and>
           (if aborted e (clock w) then new = [] \<and> res = Inr () else True)) \<and>
         no_call_after_signal e (clock w) (clock w') \<and>
         (\<forall>runId bc sc tid k w0 c s.
            in_flight e runId bc sc k w0 c s \<longrightarrow> aborted e c \<longrightarrow>
            turns s < maxTurns \<longrightarrow> \<not> dealReached s \<longrightarrow>
            fst (runMatch e runId bc sc tid k w0) = Inl BenchmarkAborted \<and>
            clock (snd (runMatch e runId bc sc tid k w0)) = c)"
proof -
  from runTournament_good [OF assms] obtain new where
    s: "seg e w w' new" and f: "fin e (case res of Inl err \<Rightarrow> Some err | Inr u \<Rightarrow> None) w' new"
    by (auto simp: good_def)
  from s have 1: "trace w' = trace w @ new" "list_all (\<lambda>x. \<not> aborted e (sch_at x)) new"
    by (auto simp: seg_def list_all_iff)
  from f have 2: "case res of
              Inr u \<Rightarrow> list_all (\<lambda>x. sch_outcome x \<noteq> Inl BenchmarkAborted) new
            | Inl err \<Rightarrow> err = BenchmarkAborted \<and> aborted e (clock w') \<and> new \<noteq> [] \<and>
                         sch_outcome (last new) = Inl BenchmarkAborted"
    by (cases res) (auto simp: fin_def)
  have 3: "if aborted e (clock w) then new = [] \<and> res = Inr () else True"
  proof (cases "aborted e (clock w)")
    case True
    from seg_aborted_empty [OF s True] have n: "new = []" .
    with f have "res = Inr ()" by (cases res) (auto simp: fin_def)
    with n True show ?thesis by simp
  next
    case False
    then show ?thesis by simp
  qed
  from s have 4: "no_call_after_signal e (clock w) (clock w')" by (simp add: seg_def)
  have 5: "\<forall>runId bc sc tid k w0 c s.
            in_flight e runId bc sc k w0 c s \<longrightarrow> aborted e c \<longrightarrow>
            turns s < maxTurns \<longrightarrow> \<not> dealReached s \<longrightarrow>
            fst (runMatch e runId bc sc tid k w0) = Inl BenchmarkAborted \<and>
            clock (snd (runMatch e runId bc sc tid k w0)) = c"
    by (simp add: abort_in_flight)
  from 1 2 3 have "\<exists>new. trace w' = trace w @ new \<and>
           list_all (\<lambda>x. \<not> aborted e (sch_at x)) new \<and>
           (case res of
              Inr u \<Rightarrow> list_all (\<lambda>x. sch_outcome x \<noteq> Inl BenchmarkAborted) new
            | Inl err \<Rightarrow> err = BenchmarkAborted \<and> aborted e (clock w') \<and> new \<noteq> [] \<and>
                         sch_outcome (last new) = Inl BenchmarkAborted) \<and>
           (if aborted e (clock w) then new = [] \<and> res = Inr () else True)" by blast
  with 4 5 show ?thesis by blast
qed

theorem cancellation_stops_scheduling_witness:
  "list_all (\<lambda>x. \<not> aborted (script haggling (Some 1)) (sch_at x))
     (trace (snd (runTournament (script haggling (Some 1)) ''R'' duel fresh))) \<and>
   clock (snd (runTournament (script haggling (Some 1)) ''R'' duel fresh)) \<le> 1 \<and>
   in_flight (script haggling (Some 1)) ''r'' buyerB sellerA 0 fresh 1 after_first_turn \<and>
   fst (runMatch (script haggling (Some 1)) ''r'' buyerB sellerA None 0 fresh) = Inl BenchmarkAborted \<and>
   clock (snd (runMatch (script haggling (Some 1)) ''r'' buyerB sellerA None 0 fresh)) = 1"
proof -
  let ?e = "script haggling (Some 1)"
  let ?X = "runTournament ?e ''R'' duel fresh"
  have h: "?X = (fst ?X, snd ?X)" by simp
  have f: "in_flight ?e ''r'' buyerB sellerA 0 fresh 1 after_first_turn" by code_simp
  have a: "aborted ?e 1" by (simp add: aborted_def script_def)
  have t: "turns after_first_turn < maxTurns" by code_simp
  have d: "\<not> dealReached after_first_turn" by code_simp
  have c0: "clock fresh = 0" by (simp add: fresh_def)
  have ab: "abortAt ?e = Some 1" by (simp add: script_def)
  from cancellation_stops_scheduling [OF h] f a t d show ?thesis
    unfolding no_call_after_signal_def ab c0 by (auto simp: fresh_def)
qed





section \<open>The round robin (C8)\<close>

text \<open>
  The entries of the schedule are the keys of \<open>modelMap\<close> in the order of
  \<^verbatim>\<open>Object.keys\<close>, which is the order of the roster only for names that are no array
  indices; and \<^verbatim>\<open>__proto__\<close> is no key at all.
\<close>

lemma roster_keys_in_object_order:
  "roster_keys with_index = [''9'', ''10'', ''B'', ''A'', ''07''] \<and>
   roster_keys with_proto = [''A'', ''B''] \<and>
   map_of (build_modelMap [''OPUS 4.5'', ''toString'', ''my-model''])  ''toString'' =
     Some (Inherited ''toString'')"
  by code_simp

text \<open>
  Claim C8: for a roster that resolves to \<open>N\<close> distinct model keys and a positive number
  \<open>R\<close> of rounds, and without cancellation, \<^verbatim>\<open>runTournament\<close> returns normally after
  starting exactly \<open>N * (N - 1) * R\<close> matches: in each round, for each pair of entries,
  first the match in which the earlier entry sells to the later one, then the match with
  the roles swapped; so in every round every model meets every other one in both roles.
  A match that fails does not stop the schedule.

  The model keys are the keys of \<open>modelMap\<close> as \<^verbatim>\<open>Object.keys\<close> lists them
  (\<open>roster_keys\<close>): the names of the roster without \<^verbatim>\<open>__proto__\<close>, each once. The matches
  are read three times: off the scheduler's own record, off the matchup lines that
  \<^verbatim>\<open>runMatch\<close> hands to the logger, and, for the matches that completed, off the parties
  named in their results.
\<close>

theorem round_robin_schedule:
  assumes "abortAt e = None" and "0 < rounds opts"
    and "runTournament e rn opts w = (res, w')"
  shows "res = Inr () \<and>
         (\<exists>new. trace w' = trace w @ new \<and>
            names new = concat (replicate (rounds opts) (round_schedule (roster_keys opts))) \<and>
            matchups (logged w') =
              matchups (logged w) @
              concat (replicate (rounds opts) (round_schedule (roster_keys opts))) \<and>
            list_all played new \<and>
            length new = length (roster_keys opts) * (length (roster_keys opts) - 1) * rounds opts) \<and>
         distinct (roster_keys opts) \<and>
         set (roster_keys opts) =
           set (case models opts of None \<Rightarrow> defaultModels | Some ms \<Rightarrow> ms) - {''__proto__''} \<and>
         (\<forall>a \<in> set (roster_keys opts). \<forall>b \<in> set (roster_keys opts).
            a \<noteq> b \<longrightarrow> (a, b) \<in> set (round_schedule (roster_keys opts)))"
proof -
  let ?n = "if rounds opts = 0 then 1 else rounds opts"
  let ?mm = "build_modelMap (case models opts of None \<Rightarrow> defaultModels | Some ms \<Rightarrow> ms)"
  let ?tid = "if tournamentName opts = [] then rn else tournamentName opts"
  let ?w0 = "w\<lparr>logged := logged w @ [LTournamentStart ?tid ?n (Object_keys ?mm)]\<rparr>"
  let ?ks = "roster_keys opts"
  let ?sched = "concat (replicate (rounds opts) (round_schedule ?ks))"
  obtain e1 w1 where p: "round_loop e ?mm ?tid (Object_keys ?mm) ?n 0 ?w0 = (e1, w1)"
    by (cases "round_loop e ?mm ?tid (Object_keys ?mm) ?n 0 ?w0")
  note g = round_loop_schedule [OF assms(1) p]
  from g assms(3) p have res: "res = Inr ()" and w': "trace w' = trace w1"
    by (auto simp: runTournament_def Let_def)
  from runTournament_good [OF assms(3)] obtain new where sg: "seg e w w' new"
    by (auto simp: good_def)
  from sg have new: "trace w' = trace w @ new"
    and mu: "matchups (logged w') = matchups (logged w) @ names new"
    and pl: "list_all played new"
    by (auto simp: seg_def list_all_iff)
  have t1: "trace w1 = trace w @ new" using w' new by simp
  have n: "?n = rounds opts" using assms(2) by simp
  from g have "names (trace w1) = names (trace w) @ ?sched"
    unfolding n roster_keys_def by (simp add: names_def)
  then have nm: "names new = ?sched"
    unfolding t1 by (simp add: names_def)
  have "length new = length (names new)" by (simp add: names_def)
  also have "\<dots> = length ?ks * (length ?ks - 1) * rounds opts"
    by (simp add: nm length_concat length_round_schedule sum_list_replicate)
  finally have len: "length new = length ?ks * (length ?ks - 1) * rounds opts" .
  have d: "distinct ?ks"
    and st: "set ?ks = set (case models opts of None \<Rightarrow> defaultModels | Some ms \<Rightarrow> ms) - {''__proto__''}"
    using roster_keys_distinct [of opts] by simp_all
  have c: "\<forall>a \<in> set ?ks. \<forall>b \<in> set ?ks. a \<noteq> b \<longrightarrow> (a, b) \<in> set (round_schedule ?ks)"
    by (simp add: round_schedule_complete)
  from new nm mu pl len have "\<exists>new. trace w' = trace w @ new \<and>
            names new = ?sched \<and>
            matchups (logged w') = matchups (logged w) @ ?sched \<and>
            list_all played new \<and>
            length new = length ?ks * (length ?ks - 1) * rounds opts" by auto
  with res d st c show ?thesis by blast
qed

theorem round_robin_schedule_witness:
  "fst (runTournament (script four_nulls None) ''R'' duel fresh) = Inr () \<and>
   names (trace (snd (runTournament (script four_nulls None) ''R'' duel fresh))) =
     [(''A'', ''B''), (''B'', ''A'')] \<and>
   matchups (logged (snd (runTournament (script four_nulls None) ''R'' duel fresh))) =
     [(''A'', ''B''), (''B'', ''A'')] \<and>
   list_all played (trace (snd (runTournament (script four_nulls None) ''R'' duel fresh))) \<and>
   length (trace (snd (runTournament (script four_nulls None) ''R'' duel fresh))) = 2 * (2 - 1) * 1"
proof -
  let ?X = "runTournament (script four_nulls None) ''R'' duel fresh"
  have h1: "abortAt (script four_nulls None) = None" by (simp add: script_def)
  have h2: "0 < rounds duel" by (simp add: duel_def)
  have h3: "?X = (fst ?X, snd ?X)" by simp
  have k: "roster_keys duel = [''A'', ''B'']" by code_simp
  have r: "round_schedule [''A'', ''B''] = [(''A'', ''B''), (''B'', ''A'')]" by code_simp
  from round_robin_schedule [OF h1 h2 h3] show ?thesis
    unfolding k r by (auto simp: fresh_def duel_def matchups_def)
qed

section \<open>The agent's parsing (C9)\<close>

text \<open>
  Claim C9: the agent first parses the whole text as JSON; only if that fails it extracts
  the first top-level \<^verbatim>\<open>{...}\<close> block and parses that; if both fail it returns the fallback
  reply (thought "Failed to parse JSON output", the raw text as message, offer null, deal
  false); malformed text never makes the agent throw.

  The agent does not extract the first top-level block. On the text of the run below,
  which holds two blocks, the specification's order parses the first block \<^verbatim>\<open>{}\<close>, an
  object; the agent hands the span from the first \<^verbatim>\<open>{\<close> to the last \<^verbatim>\<open>}\<close>, here the whole
  text, to the parser, which fails, and answers with the fallback.
\<close>

theorem first_block_is_not_what_is_parsed:
  "jsonMatch two_blocks = Some two_blocks \<and> first_block two_blocks = Some ''{}'' \<and>
   generateResponse parse_two_blocks (Inr (two_blocks, None)) =
     Inr \<lparr>thought = JStr ''Failed to parse JSON output'', message = JStr two_blocks,
          offer = ONull, deal = JBool False, usage = None\<rparr> \<and>
   spread (spec_parse_data parse_two_blocks two_blocks) None =
     \<lparr>thought = JUndefined, message = JUndefined, offer = OUndefined, deal = JUndefined,
      usage = None\<rparr>"
  by code_simp

text \<open>
  Claim C9, amended. For every raw text the agent makes one attempt: it hands to the
  parser the span from the first \<^verbatim>\<open>{\<close> of the text to its last \<^verbatim>\<open>}\<close> when there is such a
  span, and the whole text when there is none. If the parser throws, the reply is the
  fallback: thought "Failed to parse JSON output", the raw text as message, offer null,
  deal false. In no case does the text make \<^verbatim>\<open>generateResponse\<close> throw.
\<close>

theorem agent_parses_brace_span:
  "(\<exists>r. generateResponse parse (Inr (text, u)) = Inr r \<and>
        r = spread (case parse (candidate text) of Some d \<Rightarrow> d | None \<Rightarrow> fallback text) u \<and>
        (if parse (candidate text) = None
         then r = \<lparr>thought = JStr ''Failed to parse JSON output'', message = JStr text,
                   offer = ONull, deal = JBool False, usage = u\<rparr>
         else True)) \<and>
   (\<forall>a b c. CHR ''{'' \<notin> set a \<longrightarrow> CHR ''}'' \<notin> set c \<longrightarrow>
      candidate (a @ CHR ''{'' # b @ CHR ''}'' # c) = CHR ''{'' # b @ [CHR ''}'']) \<and>
   (if CHR ''}'' \<in> set (dropWhile (\<lambda>x. x \<noteq> CHR ''{'') text) then True
    else candidate text = text)"
proof -
  have 1: "generateResponse parse (Inr (text, u)) =
        Inr (spread (case parse (candidate text) of Some d \<Rightarrow> d | None \<Rightarrow> fallback text) u)"
    by (simp add: generateResponse_def parse_data_def candidate_def split: option.splits)
  have 2: "parse (candidate text) = None \<Longrightarrow>
        spread (case parse (candidate text) of Some d \<Rightarrow> d | None \<Rightarrow> fallback text) u =
        \<lparr>thought = JStr ''Failed to parse JSON output'', message = JStr text,
         offer = ONull, deal = JBool False, usage = u\<rparr>"
    by (simp add: fallback_def)
  have 3: "\<forall>a b c. CHR ''{'' \<notin> set a \<longrightarrow> CHR ''}'' \<notin> set c \<longrightarrow>
      candidate (a @ CHR ''{'' # b @ CHR ''}'' # c) = CHR ''{'' # b @ [CHR ''}'']"
    by (simp add: candidate_def jsonMatch_span)
  have 4: "if CHR ''}'' \<in> set (dropWhile (\<lambda>x. x \<noteq> CHR ''{'') text) then True
    else candidate text = text"
    by (simp add: candidate_def jsonMatch_def)
  from 1 2 3 4 show ?thesis by simp
qed

theorem agent_parses_brace_span_witness:
  "candidate ''Sure: {} ok'' = ''{}'' \<and> candidate ''no braces'' = ''no braces'' \<and>
   generateResponse parse_two_blocks (Inr (''no braces'', None)) =
     Inr \<lparr>thought = JStr ''Failed to parse JSON output'', message = JStr ''no braces'',
          offer = ONull, deal = JBool False, usage = None\<rparr>"
proof -
  note t = agent_parses_brace_span [of parse_two_blocks "''no braces''" None]
  have p: "parse_two_blocks (candidate ''no braces'') = None" by code_simp
  have n: "CHR ''}'' \<notin> set (dropWhile (\<lambda>x. x \<noteq> CHR ''{'') ''no braces'')" by simp
  have a: "CHR ''{'' \<notin> set ''Sure: ''" by simp
  have c: "CHR ''}'' \<notin> set '' ok''" by simp
  from t a c have "candidate (''Sure: '' @ CHR ''{'' # [] @ CHR ''}'' # '' ok'') = CHR ''{'' # [] @ [CHR ''}'']"
    by blast
  then have 1: "candidate ''Sure: {} ok'' = ''{}''" by simp
  from t n have 2: "candidate ''no braces'' = ''no braces''" by simp
  from t p have 3: "generateResponse parse_two_blocks (Inr (''no braces'', None)) =
     Inr \<lparr>thought = JStr ''Failed to parse JSON output'', message = JStr ''no braces'',
          offer = ONull, deal = JBool False, usage = None\<rparr>" by auto
  from 1 2 3 show ?thesis by simp
qed

end
